theory Spec2Isabelle
  imports Complex_Main "HOL-Library.Product_Lexorder" "HOL-Library.List_Lexorder"
    "HOL-Library.Char_ord" "HOL-Library.Sublist" "HOL-Library.Multiset"
begin

section \<open>Conventions of the embedding of common.py\<close>

text \<open>
  Prices, depths and returns are numpy float64 values in the source. They are embedded as
  exact rationals: rounding is not represented, and neither are the IEEE values inf and nan.
  numpy does not raise on a zero divisor (it yields inf or nan and warns); a run that reaches
  such a division leaves what the embedding can represent and is reported as the outcome
  \<open>NonFinite\<close>, after which it is not followed further. The other outcomes on the left of
  a sum are the exceptions the Python code raises.
\<close>

datatype error =
    IndexError
  | ValueError
  | ConnectionError
  | SymbolNotFound
  | NonFinite
  | DegenerateCalibrationError

text \<open>
  \<open>SymbolNotFound\<close> is \<^verbatim>\<open>Exception('symbol not found ')\<close> of web_scraping.
  \<open>DegenerateCalibrationError\<close> is named by the specification only: no path of common.py
  constructs it.
\<close>

definition DATE_RANGE :: nat where
  "DATE_RANGE = 5"

definition MAX_STOCK_PICK :: nat where
  "MAX_STOCK_PICK = 3"

definition GARBAGE_FILTER_THRESHOLD :: rat where
  "GARBAGE_FILTER_THRESHOLD = 7 / 10"

definition VOLUME_FILTER_THRESHOLD :: int where
  "VOLUME_FILTER_THRESHOLD = 10000"

text \<open>\<^verbatim>\<open>np.finfo(float).min\<close>, the most negative finite double: \<open>-(2 - 2^-52) * 2^1023\<close>.\<close>

definition float_min :: rat where
  "float_min = - (2 ^ 1024 - 2 ^ 971)"

subsection \<open>Python and numpy primitives\<close>

text \<open>\<^verbatim>\<open>xs[i]\<close> for a possibly negative index: IndexError outside \<open>-len \<le> i < len\<close>.\<close>

definition py_index :: "'a list \<Rightarrow> int \<Rightarrow> error + 'a" where
  "py_index xs i =
     (if 0 \<le> i \<and> i < int (length xs) then Inr (xs ! nat i)
      else if i < 0 \<and> - int (length xs) \<le> i then Inr (xs ! nat (int (length xs) + i))
      else Inl IndexError)"

text \<open>A slice bound is moved into \<open>0..len\<close>: a negative bound counts from the end.\<close>

definition slice_bound :: "nat \<Rightarrow> int \<Rightarrow> nat" where
  "slice_bound n i = (if i < 0 then nat (max 0 (int n + i)) else min n (nat i))"

text \<open>\<^verbatim>\<open>xs[a:b]\<close> and \<^verbatim>\<open>xs[a:]\<close>.\<close>

definition py_slice :: "'a list \<Rightarrow> int \<Rightarrow> int \<Rightarrow> 'a list" where
  "py_slice xs a b =
     (let lo = slice_bound (length xs) a; hi = slice_bound (length xs) b
      in take (hi - lo) (drop lo xs))"

definition py_slice_from :: "'a list \<Rightarrow> int \<Rightarrow> 'a list" where
  "py_slice_from xs a = drop (slice_bound (length xs) a) xs"

text \<open>\<^verbatim>\<open>np.max\<close> raises ValueError on an empty array.\<close>

definition np_max :: "rat list \<Rightarrow> error + rat" where
  "np_max xs = (if xs = [] then Inl ValueError else Inr (Max (set xs)))"

text \<open>Division of two float64 values.\<close>

definition fdiv :: "rat \<Rightarrow> rat \<Rightarrow> error + rat" where
  "fdiv x y = (if y = 0 then Inl NonFinite else Inr (x / y))"

text \<open>\<^verbatim>\<open>np.average\<close>; the source calls it on a nonempty list only.\<close>

definition np_average :: "rat list \<Rightarrow> rat" where
  "np_average gains = sum_list gains / of_nat (length gains)"

text \<open>A list comprehension whose element expression may fail: the first failure wins.\<close>

fun collect :: "(error + 'a) list \<Rightarrow> error + 'a list" where
  "collect [] = Inr []"
| "collect (r # rs) =
     (case r of Inl e \<Rightarrow> Inl e
      | Inr v \<Rightarrow> (case collect rs of Inl e \<Rightarrow> Inl e | Inr vs \<Rightarrow> Inr (v # vs)))"

section \<open>UniverseFilter: filter_garbage_series\<close>

text \<open>
  A dict is an association list in insertion order with distinct keys;
  \<^verbatim>\<open>res[ticker] = series\<close> replaces the value of a key already present and appends a new key.
\<close>

fun dict_set :: "('k \<times> 'v) list \<Rightarrow> 'k \<Rightarrow> 'v \<Rightarrow> ('k \<times> 'v) list" where
  "dict_set [] k v = [(k, v)]"
| "dict_set ((k', v') # d) k v = (if k' = k then (k, v) # d else (k', v') # dict_set d k v)"

fun garbage_loop ::
  "(string \<times> rat list) list \<Rightarrow> (string \<times> rat list) list \<Rightarrow> error + (string \<times> rat list) list"
where
  "garbage_loop [] res = Inr res"
| "garbage_loop ((ticker, series) # rest) res =
     (case np_max series of Inl e \<Rightarrow> Inl e
      | Inr m \<Rightarrow>
        (case py_index series (- 1) of Inl e \<Rightarrow> Inl e
         | Inr lst \<Rightarrow>
           if m * GARBAGE_FILTER_THRESHOLD \<le> lst
           then garbage_loop rest (dict_set res ticker series)
           else garbage_loop rest res))"

definition filter_garbage_series ::
  "(string \<times> rat list) list \<Rightarrow> error + (string \<times> rat list) list" where
  "filter_garbage_series all_series = garbage_loop all_series []"

section \<open>PortfolioBuilder: get_trading_list\<close>

text \<open>
  \<^verbatim>\<open>buy_symbols\<close> is a list of tuples (avg_return, ticker). Python compares tuples
  lexicographically and strings by code point, which is the order of
  \<^typ>\<open>rat \<times> string\<close> here. \<^verbatim>\<open>buy_symbols.sort(reverse=True)\<close> is a stable
  descending sort; elements that compare equal are equal tuples, so it is the reverse of the
  ascending sort.

  The \<^verbatim>\<open>while\<close> loop of line 159; \<^verbatim>\<open>and\<close> evaluates its right operand only when the
  index is in range.
\<close>

function count_symbols :: "(rat \<times> string) list \<Rightarrow> nat \<Rightarrow> nat" where
  "count_symbols buy_symbols n_symbols =
     (if n_symbols < min MAX_STOCK_PICK (length buy_symbols)
         \<and> 1 / 100 \<le> fst (buy_symbols ! n_symbols)
      then count_symbols buy_symbols (n_symbols + 1)
      else n_symbols)"
  by pat_completeness auto
termination
  by (relation "measure (\<lambda>(buy_symbols, n_symbols).
        min MAX_STOCK_PICK (length buy_symbols) - n_symbols)") auto

declare count_symbols.simps [simp del]

text \<open>
  The function sorts the caller's list in place, so the embedding returns the list as the
  call leaves it together with the returned trading list. Both \<^verbatim>\<open>for\<close> loops run over
  \<^verbatim>\<open>range(n_symbols)\<close>: no quotient is computed when \<open>n_symbols = 0\<close>.
\<close>

definition get_trading_list ::
  "(rat \<times> string) list \<Rightarrow> (rat \<times> string) list \<times> (string \<times> rat) list" where
  "get_trading_list buy_symbols0 =
     (let buy_symbols = rev (sort buy_symbols0);
          n_symbols = count_symbols buy_symbols 0;
          ac = foldl (\<lambda>ac i. ac + fst (buy_symbols ! i)) 0 [0..<n_symbols];
          trading_list =
            map (\<lambda>i. (snd (buy_symbols ! i),
                       3 / 4 / of_nat n_symbols + 1 / 4 * fst (buy_symbols ! i) / ac))
              [0..<n_symbols]
      in (buy_symbols, trading_list))"

text \<open>The accepted symbols: \<^verbatim>\<open>buy_symbols[:n_symbols]\<close> after the sort and the while loop.\<close>

definition accepted :: "(rat \<times> string) list \<Rightarrow> (rat \<times> string) list" where
  "accepted buy_symbols0 =
     (let buy_symbols = rev (sort buy_symbols0)
      in take (count_symbols buy_symbols 0) buy_symbols)"

text \<open>An input used in the examples below.\<close>

definition ex_symbols :: "(rat \<times> string) list" where
  "ex_symbols = [(1 / 50, ''AB''), (3 / 100, ''CD''), (1 / 200, ''EF'')]"

section \<open>DipThresholdEstimator: get_picked_points\<close>

text \<open>
  Line 39. \<^verbatim>\<open>range(DATE_RANGE - 1, len(series) - 1)\<close> is empty when the series has fewer
  than six points; both reads are in range.
\<close>

definition down_t :: "rat list \<Rightarrow> nat list" where
  "down_t series =
     map (\<lambda>i. i + 1)
       (filter (\<lambda>i. series ! (i + 1) \<le> series ! i) [DATE_RANGE - 1 ..< length series - 1])"

text \<open>Line 40: the element expression, and the comprehension over \<^verbatim>\<open>down_t\<close>.\<close>

definition depth :: "rat list \<Rightarrow> nat \<Rightarrow> error + rat" where
  "depth series i =
     (case np_max (py_slice series (int i - int DATE_RANGE) (int i)) of
        Inl e \<Rightarrow> Inl e
      | Inr m \<Rightarrow> fdiv (m - series ! i) m)"

definition down_percent :: "rat list \<Rightarrow> nat list \<Rightarrow> error + rat list" where
  "down_percent series dt = collect (map (depth series) dt)"

text \<open>
  Line 41. \<^verbatim>\<open>sorted(..., reverse=True)\<close> is stable: indices of equal depth keep their
  order. That is the stable ascending sort by the negated depth.
\<close>

definition pick_ti :: "rat list \<Rightarrow> nat list" where
  "pick_ti dp = sort_key (\<lambda>i. - (dp ! i)) [0..<length dp]"

text \<open>Line 47: the rebound after day \<open>t\<close>, and the comprehension with its range filter.\<close>

definition gain :: "rat list \<Rightarrow> nat \<Rightarrow> error + rat" where
  "gain series t = fdiv (series ! (t + 1) - series ! t) (series ! t)"

definition gains :: "rat list \<Rightarrow> nat list \<Rightarrow> error + rat list" where
  "gains series potential_t =
     collect (map (gain series) (filter (\<lambda>t. t + 1 < length series) potential_t))"

text \<open>The variables the loop of lines 45 to 56 updates.\<close>

record scan_state =
  tol :: int
  max_avg_gain :: rat
  n_pick :: nat

text \<open>
  Lines 46 to 56, one iteration. The result says whether the loop breaks; the test
  \<^verbatim>\<open>if not tol\<close> stands inside \<^verbatim>\<open>if len(gains) > 0\<close>.
\<close>

definition scan_body ::
  "rat list \<Rightarrow> nat list \<Rightarrow> nat list \<Rightarrow> nat \<Rightarrow> scan_state \<Rightarrow> error + (bool \<times> scan_state)"
where
  "scan_body series dt pti n_point st =
     (case gains series (map (\<lambda>j. dt ! j) (take n_point pti)) of
        Inl e \<Rightarrow> Inl e
      | Inr gs \<Rightarrow>
          if 0 < length gs then
            (let avg_gain = np_average gs;
                 st' = (if max_avg_gain st < avg_gain
                        then st\<lparr>n_pick := n_point, max_avg_gain := avg_gain\<rparr>
                        else st\<lparr>tol := tol st - 1\<rparr>)
             in Inr (tol st' = 0, st'))
          else Inr (False, st))"

text \<open>The \<^verbatim>\<open>for\<close> loop over the values of \<^verbatim>\<open>n_point\<close>, with its \<^verbatim>\<open>break\<close>.\<close>

fun scan ::
  "(nat \<Rightarrow> scan_state \<Rightarrow> error + (bool \<times> scan_state)) \<Rightarrow> nat list \<Rightarrow> scan_state
   \<Rightarrow> error + scan_state"
where
  "scan body [] st = Inr st"
| "scan body (n_point # rest) st =
     (case body n_point st of
        Inl e \<Rightarrow> Inl e
      | Inr (brk, st') \<Rightarrow> if brk then Inr st' else scan body rest st')"

definition scan_init :: scan_state where
  "scan_init = \<lparr>tol = 50, max_avg_gain = float_min, n_pick = 0\<rparr>"

text \<open>
  Lines 38 to 60. \<^verbatim>\<open>pick_ti[n_pick - 1]\<close> is a read with a possibly negative index;
  \<^verbatim>\<open>down_percent[threshold_i]\<close> is in range, \<^verbatim>\<open>threshold_i\<close> being an element of
  \<^verbatim>\<open>pick_ti\<close>.
\<close>

definition get_picked_points :: "rat list \<Rightarrow> error + (nat list \<times> rat \<times> rat)" where
  "get_picked_points series =
     (let dt = down_t series in
      case down_percent series dt of
        Inl e \<Rightarrow> Inl e
      | Inr dp \<Rightarrow>
          (let pti = pick_ti dp in
           case scan (scan_body series dt pti) [1..<length pti] scan_init of
             Inl e \<Rightarrow> Inl e
           | Inr st \<Rightarrow>
               (case py_index pti (int (n_pick st) - 1) of
                  Inl e \<Rightarrow> Inl e
                | Inr threshold_i \<Rightarrow>
                    Inr (map (\<lambda>j. dt ! j) (take (n_pick st) pti),
                         max_avg_gain st,
                         dp ! threshold_i))))"

subsection \<open>Views of a run, used to state its properties\<close>

text \<open>The values of \<^verbatim>\<open>n_point\<close> for which the loop body runs, in order.\<close>

fun considered ::
  "(nat \<Rightarrow> scan_state \<Rightarrow> error + (bool \<times> scan_state)) \<Rightarrow> nat list \<Rightarrow> scan_state \<Rightarrow> nat list"
where
  "considered body [] st = []"
| "considered body (n_point # rest) st =
     n_point #
     (case body n_point st of
        Inl e \<Rightarrow> []
      | Inr (brk, st') \<Rightarrow> if brk then [] else considered body rest st')"

text \<open>
  The value of \<^verbatim>\<open>avg_gain\<close> in the iteration \<open>n_point = k\<close>; there is none when
  \<^verbatim>\<open>gains\<close> is empty.
\<close>

definition avg_at :: "rat list \<Rightarrow> nat list \<Rightarrow> nat list \<Rightarrow> nat \<Rightarrow> rat option" where
  "avg_at series dt pti k =
     (case gains series (map (\<lambda>j. dt ! j) (take k pti)) of
        Inl e \<Rightarrow> None
      | Inr gs \<Rightarrow> if 0 < length gs then Some (np_average gs) else None)"

text \<open>The depths of the DipEvents of a series, in scan order (empty when undefined).\<close>

definition depths :: "rat list \<Rightarrow> rat list" where
  "depths series = (case down_percent series (down_t series) of Inl e \<Rightarrow> [] | Inr dp \<Rightarrow> dp)"

text \<open>The DipEvents (day, depth) in the order of \<^verbatim>\<open>pick_ti\<close>: rank 1 first.\<close>

definition ranked_events :: "rat list \<Rightarrow> (nat \<times> rat) list" where
  "ranked_events series =
     map (\<lambda>j. (down_t series ! j, depths series ! j)) (pick_ti (depths series))"

text \<open>
  The value of \<^verbatim>\<open>avg_gain\<close> for the top \<open>k\<close> events; there is none when no chosen event has
  a next day.
\<close>

definition avg_rebound :: "rat list \<Rightarrow> nat \<Rightarrow> rat option" where
  "avg_rebound series k =
     (case gains series (map fst (take k (ranked_events series))) of
        Inl e \<Rightarrow> None
      | Inr gs \<Rightarrow> if 0 < length gs then Some (np_average gs) else None)"

text \<open>The values of \<open>k\<close> that a call of get_picked_points considers.\<close>

definition considered_k :: "rat list \<Rightarrow> nat list" where
  "considered_k series =
     (let pti = pick_ti (depths series)
      in considered (scan_body series (down_t series) pti) [1..<length pti] scan_init)"

section \<open>BuySignalEvaluator: get_buy_signal\<close>

definition get_buy_signal :: "rat list \<Rightarrow> rat \<Rightarrow> error + (rat \<times> bool)" where
  "get_buy_signal series price =
     (case py_index series (- 1) of
        Inl e \<Rightarrow> Inl e
      | Inr lst \<Rightarrow>
          if lst \<le> price then Inr (0, False)
          else
            (case get_picked_points series of
               Inl e \<Rightarrow> Inl e
             | Inr (pick_t, avg_return, threshold) \<Rightarrow>
                 (case np_max (py_slice_from series (- int DATE_RANGE)) of
                    Inl e \<Rightarrow> Inl e
                  | Inr m \<Rightarrow>
                      (case fdiv (m - price) m of
                         Inl e \<Rightarrow> Inl e
                       | Inr dpc \<Rightarrow> Inr (avg_return, threshold < dpc)))))"

text \<open>Series used in the examples below.\<close>

definition ex_three_dips :: "rat list" where
  "ex_three_dips = [10, 10, 10, 10, 10, 9, 12, 8, 8]"

definition ex_last_day_deepest :: "rat list" where
  "ex_last_day_deepest = [10, 10, 10, 10, 10, 9, 19 / 2, 8]"


definition ex_rising :: "rat list" where
  "ex_rising = [1, 2, 3, 4, 5, 6, 7]"


section \<open>UniverseFilter: web_scraping and filter_low_volume_series\<close>

text \<open>
  The network is outside the program. A call of \<^verbatim>\<open>requests.get\<close> either raises (here
  \<open>ConnectionError\<close>) or yields a response, of which the code reads \<^verbatim>\<open>ok\<close> and
  \<^verbatim>\<open>str(r.content)\<close>. web_scraping makes at most two calls, so it is given the outcomes of
  the first call and of a second one.
\<close>

record response =
  ok :: bool
  content :: string

text \<open>\<^verbatim>\<open>c.find(prefix)\<close>: the first position at which \<open>prefix\<close> occurs, \<open>None\<close> for -1.\<close>

fun py_find :: "string \<Rightarrow> string \<Rightarrow> nat option" where
  "py_find [] p = (if p = [] then Some 0 else None)"
| "py_find (x # xs) p =
     (if prefix p (x # xs) then Some 0 else map_option Suc (py_find xs p))"

text \<open>Lines 178 to 182: the position of the first prefix that occurs.\<close>

fun find_prefixes :: "string \<Rightarrow> string list \<Rightarrow> nat option" where
  "find_prefixes c [] = None"
| "find_prefixes c (p # ps) =
     (case py_find c p of Some pos \<Rightarrow> Some pos | None \<Rightarrow> find_prefixes c ps)"

definition is_digit :: "char \<Rightarrow> bool" where
  "is_digit ch \<longleftrightarrow> CHR ''0'' \<le> ch \<and> ch \<le> CHR ''9''"

text \<open>
  The two \<^verbatim>\<open>while\<close> loops of lines 185 to 189, over the rest of the text from \<open>pos\<close> on.
  Reading \<^verbatim>\<open>c[pos]\<close> past the end raises IndexError.
\<close>

fun skip_to_digit :: "string \<Rightarrow> error + string" where
  "skip_to_digit [] = Inl IndexError"
| "skip_to_digit (ch # cs) = (if is_digit ch then Inr (ch # cs) else skip_to_digit cs)"

fun read_number :: "string \<Rightarrow> error + string" where
  "read_number [] = Inl IndexError"
| "read_number (ch # cs) =
     (if is_digit ch \<or> ch = CHR ''.''
      then (case read_number cs of Inl e \<Rightarrow> Inl e | Inr s \<Rightarrow> Inr (ch # s))
      else Inr [])"

definition web_scraping ::
  "error + response \<Rightarrow> error + response \<Rightarrow> string list \<Rightarrow> error + string" where
  "web_scraping first_get second_get prefixes' =
     (case first_get of
        Inl e \<Rightarrow> Inl e
      | Inr r1 \<Rightarrow>
          (case (if \<not> ok r1 then second_get else Inr r1) of
             Inl e \<Rightarrow> Inl e
           | Inr r \<Rightarrow>
               (case find_prefixes (content r) prefixes' of
                  None \<Rightarrow> Inl SymbolNotFound
                | Some pos \<Rightarrow>
                    (case skip_to_digit (drop pos (content r)) of
                       Inl e \<Rightarrow> Inl e
                     | Inr rest \<Rightarrow> read_number rest))))"

text \<open>
  \<^verbatim>\<open>int(s)\<close> for a text of digits and dots, which is all web_scraping returns: ValueError
  unless it is a nonempty text of digits.
\<close>

definition digit_value :: "char \<Rightarrow> int" where
  "digit_value ch = int (of_char ch) - int (of_char CHR ''0'')"

definition py_int :: "string \<Rightarrow> error + int" where
  "py_int s =
     (if s \<noteq> [] \<and> list_all is_digit s
      then Inr (foldl (\<lambda>n ch. 10 * n + digit_value ch) 0 s)
      else Inl ValueError)"

text \<open>
  Lines 124 to 126 for one ticker. \<open>net url\<close> gives the outcomes of a first and of a second
  \<^verbatim>\<open>requests.get(url)\<close>.
\<close>

definition fetch_volume ::
  "(string \<Rightarrow> (error + response) \<times> (error + response)) \<Rightarrow> string \<Rightarrow> error + int" where
  "fetch_volume net ticker =
     (let url = ''https://finance.yahoo.com/quote/'' @ ticker;
          prefixes' = [''regularMarketVolume'']
      in case web_scraping (fst (net url)) (snd (net url)) prefixes' of
           Inl e \<Rightarrow> Inl e
         | Inr s \<Rightarrow> py_int s)"

text \<open>
  The loop of lines 120 to 129 over \<^verbatim>\<open>all_series.items()\<close>, with the variables
  \<^verbatim>\<open>res\<close> and \<^verbatim>\<open>overwrite\<close>. \<open>volumes\<close> is the cache as read from the file; the code
  never stores a fetched volume in it. No \<^verbatim>\<open>try\<close> stands around the lookup.
\<close>

fun volume_loop ::
  "(string \<Rightarrow> (error + response) \<times> (error + response)) \<Rightarrow> (string \<rightharpoonup> int)
   \<Rightarrow> (string \<times> rat list) list \<Rightarrow> (string \<times> rat list) list \<Rightarrow> bool
   \<Rightarrow> error + ((string \<times> rat list) list \<times> bool)"
where
  "volume_loop net volumes [] res overwrite = Inr (res, overwrite)"
| "volume_loop net volumes ((ticker, series) # rest) res overwrite =
     (case (case volumes ticker of
              Some v \<Rightarrow> Inr (v, overwrite)
            | None \<Rightarrow>
                (case fetch_volume net ticker of Inl e \<Rightarrow> Inl e | Inr v \<Rightarrow> Inr (v, True)))
      of
        Inl e \<Rightarrow> Inl e
      | Inr (volume, overwrite') \<Rightarrow>
          if VOLUME_FILTER_THRESHOLD \<le> volume
          then volume_loop net volumes rest (dict_set res ticker series) overwrite'
          else volume_loop net volumes rest res overwrite')"

text \<open>
  Lines 113 to 133. When \<^verbatim>\<open>overwrite\<close> is set the cache file is written again, with the
  unchanged \<open>volumes\<close>; the returned value is \<^verbatim>\<open>res\<close>.
\<close>

definition filter_low_volume_series ::
  "(string \<Rightarrow> (error + response) \<times> (error + response)) \<Rightarrow> (string \<rightharpoonup> int)
   \<Rightarrow> (string \<times> rat list) list \<Rightarrow> error + (string \<times> rat list) list" where
  "filter_low_volume_series net volumes all_series =
     (case volume_loop net volumes all_series [] False of
        Inl e \<Rightarrow> Inl e
      | Inr (res, overwrite) \<Rightarrow> Inr res)"

text \<open>
  The volume the loop uses for a ticker and the volume rule on it. Then an example: a cache
  that knows ticker A, a network that answers every request with a page without the volume,
  and one that answers with a page that has it.
\<close>

definition volume_of ::
  "(string \<Rightarrow> (error + response) \<times> (error + response)) \<Rightarrow> (string \<rightharpoonup> int) \<Rightarrow> string
   \<Rightarrow> error + int" where
  "volume_of net volumes ticker =
     (case volumes ticker of Some v \<Rightarrow> Inr v | None \<Rightarrow> fetch_volume net ticker)"

definition enough_volume ::
  "(string \<Rightarrow> (error + response) \<times> (error + response)) \<Rightarrow> (string \<rightharpoonup> int) \<Rightarrow> string
   \<Rightarrow> bool" where
  "enough_volume net volumes ticker =
     (case volume_of net volumes ticker of
        Inl e \<Rightarrow> False
      | Inr v \<Rightarrow> VOLUME_FILTER_THRESHOLD \<le> v)"

definition ex_cache :: "string \<rightharpoonup> int" where
  "ex_cache = [''A'' \<mapsto> 20000]"

definition ex_net_down :: "string \<Rightarrow> (error + response) \<times> (error + response)" where
  "ex_net_down url =
     (Inr \<lparr>ok = False, content = ''Not Found''\<rparr>, Inr \<lparr>ok = False, content = ''Not Found''\<rparr>)"

definition ex_net_up :: "string \<Rightarrow> (error + response) \<times> (error + response)" where
  "ex_net_up url =
     (Inr \<lparr>ok = True, content = ''regularMarketVolume: 12345, ''\<rparr>, Inl ConnectionError)"

section \<open>Properties of the primitives\<close>

lemma py_index_last: "xs \<noteq> [] \<Longrightarrow> py_index xs (- 1) = Inr (last xs)"
proof -
  assume ne: "xs \<noteq> []"
  then have l: "1 \<le> length xs" by (cases xs) simp_all
  then have "nat (int (length xs) + - 1) = length xs - 1" by linarith
  with ne l show ?thesis
    by (simp add: py_index_def last_conv_nth)
qed

lemma dict_set_fresh: "k \<notin> fst ` set d \<Longrightarrow> dict_set d k v = d @ [(k, v)]"
  by (induction d) auto

section \<open>The garbage filter keeps exactly the tickers that pass the rule\<close>




lemma filter_garbage_series_empty_series:
  "filter_garbage_series [(''A'', [200, 150]), (''B'', [])] = Inl ValueError"
  by (simp add: filter_garbage_series_def np_max_def py_index_def GARBAGE_FILTER_THRESHOLD_def)

section \<open>PortfolioBuilder: the accepted prefix and the proportions\<close>

lemma count_symbols_takeWhile:
  "n \<le> min MAX_STOCK_PICK (length bs) \<Longrightarrow>
   count_symbols bs n =
     n + length (takeWhile (\<lambda>b. 1 / 100 \<le> fst b) (drop n (take MAX_STOCK_PICK bs)))"
proof (induction bs n rule: count_symbols.induct)
  case (1 bs n)
  show ?case
  proof (cases "n < min MAX_STOCK_PICK (length bs)")
    case True
    then have d: "drop n (take MAX_STOCK_PICK bs) = bs ! n # drop (Suc n) (take MAX_STOCK_PICK bs)"
      using Cons_nth_drop_Suc[of n "take MAX_STOCK_PICK bs"] by simp
    show ?thesis
    proof (cases "1 / 100 \<le> fst (bs ! n)")
      case le: True
      with True 1 show ?thesis
        by (subst count_symbols.simps) (simp add: d)
    next
      case False
      with True show ?thesis
        by (subst count_symbols.simps) (simp add: d)
    qed
  next
    case False
    with "1.prems" have "n = min MAX_STOCK_PICK (length bs)" by linarith
    then show ?thesis
      by (subst count_symbols.simps) simp
  qed
qed

lemma count_symbols_0:
  "count_symbols bs 0 = length (takeWhile (\<lambda>b. 1 / 100 \<le> fst b) (take MAX_STOCK_PICK bs))"
  using count_symbols_takeWhile[of 0 bs] by simp

lemma take_count_symbols:
  "take (count_symbols bs 0) bs = takeWhile (\<lambda>b. 1 / 100 \<le> fst b) (take MAX_STOCK_PICK bs)"
proof -
  let ?P = "\<lambda>b::rat \<times> string. 1 / 100 \<le> fst b"
  let ?tw = "takeWhile ?P (take MAX_STOCK_PICK bs)"
  have "take (length ?tw) (take MAX_STOCK_PICK bs) = ?tw"
    by (metis takeWhile_eq_take)
  moreover have "length ?tw \<le> MAX_STOCK_PICK"
    by (metis length_takeWhile_le length_take min.cobounded2 order_trans)
  ultimately show ?thesis
    by (simp add: count_symbols_0 min_absorb1)
qed

lemma count_symbols_le: "count_symbols bs 0 \<le> length bs"
  by (metis count_symbols_0 length_takeWhile_le length_take min.cobounded1 order_trans)

lemma map_range_take: "n \<le> length xs \<Longrightarrow> map (\<lambda>i. g (xs ! i)) [0..<n] = map g (take n xs)"
  by (rule nth_equalityI) auto

lemma foldl_add_sum: "foldl (\<lambda>ac i. ac + f i) a is = a + sum_list (map f is)"
  by (induction "is" arbitrary: a) (auto simp: add.assoc)

lemma accepted_takeWhile:
  "accepted bs = takeWhile (\<lambda>b. 1 / 100 \<le> fst b) (take MAX_STOCK_PICK (rev (sort bs)))"
  by (simp add: accepted_def Let_def take_count_symbols)

lemma accepted_floor: "b \<in> set (accepted bs) \<Longrightarrow> 1 / 100 \<le> fst b"
  unfolding accepted_takeWhile by (auto dest: set_takeWhileD)

text \<open>The returned list, written over the accepted symbols instead of over indices.\<close>

lemma get_trading_list_accepted:
  "snd (get_trading_list bs) =
     map (\<lambda>b. (snd b, 3 / 4 / of_nat (length (accepted bs))
                        + 1 / 4 * fst b / sum_list (map fst (accepted bs))))
       (accepted bs)"
proof -
  let ?s = "rev (sort bs)"
  let ?n = "count_symbols ?s 0"
  have n: "?n \<le> length ?s" by (rule count_symbols_le)
  have len: "length (accepted bs) = ?n" using n by (simp add: accepted_def Let_def)
  have ac: "foldl (\<lambda>ac i. ac + fst (?s ! i)) 0 [0..<?n] = sum_list (map fst (accepted bs))"
    using map_range_take[OF n, of fst] by (simp add: foldl_add_sum accepted_def Let_def)
  show ?thesis
    unfolding get_trading_list_def Let_def snd_conv ac
    using map_range_take[OF n] by (simp add: len) (simp add: accepted_def Let_def)
qed

lemma member_le_sum_list_nonneg:
  fixes xs :: "rat list"
  shows "\<forall>y \<in> set xs. 0 \<le> y \<Longrightarrow> x \<in> set xs \<Longrightarrow> x \<le> sum_list xs"
proof (induction xs)
  case Nil
  then show ?case by simp
next
  case (Cons a xs)
  have "0 \<le> sum_list xs" using Cons.prems(1) by (simp add: sum_list_nonneg)
  then show ?case using Cons by auto
qed

lemma sum_list_pos_floor:
  fixes xs :: "rat list"
  shows "xs \<noteq> [] \<Longrightarrow> \<forall>y \<in> set xs. 1 / 100 \<le> y \<Longrightarrow> 0 < sum_list xs"
proof (induction xs)
  case Nil
  then show ?case by simp
next
  case (Cons a xs)
  have "0 \<le> sum_list xs" using Cons.prems(2) by (intro sum_list_nonneg) auto
  moreover have "0 < a" using Cons.prems(2) by auto
  ultimately show ?case by simp
qed

lemma even_share:
  fixes n :: rat
  shows "1 \<le> n \<Longrightarrow> 3 / 4 / n \<le> 3 / 4 \<and> 0 < 3 / 4 / n"
  by (simp add: field_simps)

lemma sum_list_proportions:
  fixes A :: "(rat \<times> string) list"
  assumes "A \<noteq> []" and "sum_list (map fst A) \<noteq> 0"
  shows "sum_list (map (\<lambda>b. 3 / 4 / of_nat (length A) + 1 / 4 * fst b / sum_list (map fst A)) A) = 1"
proof -
  let ?T = "sum_list (map fst A)"
  let ?n = "of_nat (length A) :: rat"
  have n: "?n \<noteq> 0" using assms(1) by simp
  have "sum_list (map (\<lambda>b. 3 / 4 / ?n + 1 / 4 * fst b / ?T) A)
        = sum_list (map (\<lambda>b. 3 / 4 / ?n) A) + sum_list (map (\<lambda>b. 1 / 4 * fst b / ?T) A)"
    by (simp add: sum_list_addf)
  also have "sum_list (map (\<lambda>b. 3 / 4 / ?n) A) = ?n * (3 / 4 / ?n)"
    by (simp add: sum_list_triv)
  also have "\<dots> = 3 / 4" using n by simp
  also have "sum_list (map (\<lambda>b. 1 / 4 * fst b / ?T) A) = (1 / 4 / ?T) * ?T"
  proof -
    have "(\<lambda>b::rat \<times> string. 1 / 4 * fst b / ?T) = (\<lambda>b. (1 / 4 / ?T) * fst b)"
      by (simp add: fun_eq_iff)
    then show ?thesis
      by (simp only: sum_list_const_mult)
  qed
  also have "\<dots> = 1 / 4" using assms(2) by simp
  finally show ?thesis by simp
qed

lemma accepted_ex_symbols: "accepted ex_symbols = [(3 / 100, ''CD''), (1 / 50, ''AB'')]"
  by (simp add: ex_symbols_def accepted_takeWhile MAX_STOCK_PICK_def)

lemma sorted_ex_symbols:
  "rev (sort ex_symbols) = [(3 / 100, ''CD''), (1 / 50, ''AB''), (1 / 200, ''EF'')]"
  by (simp add: ex_symbols_def)

text \<open>
  C5. When at least one symbol is accepted (every accepted symbol has expectedReturn at least
  0.01, so totalReturn is positive), the trading list holds for each accepted symbol the
  proportion \<open>0.75 / n + 0.25 * expectedReturn / totalReturn\<close>; every proportion lies in
  \<open>(0, 1]\<close>, the proportions sum to 1 in exact arithmetic, and a single accepted symbol gets
  exactly 1.
\<close>

theorem get_trading_list_proportions:
  assumes "accepted buy_symbols \<noteq> []"
  shows "snd (get_trading_list buy_symbols) =
           map (\<lambda>b. (snd b, 3 / 4 / of_nat (length (accepted buy_symbols))
                              + 1 / 4 * fst b / sum_list (map fst (accepted buy_symbols))))
             (accepted buy_symbols)
       \<and> (\<forall>b \<in> set (accepted buy_symbols). 1 / 100 \<le> fst b)
       \<and> 0 < sum_list (map fst (accepted buy_symbols))
       \<and> (\<forall>(ticker, proportion) \<in> set (snd (get_trading_list buy_symbols)).
             0 < proportion \<and> proportion \<le> 1)
       \<and> sum_list (map snd (snd (get_trading_list buy_symbols))) = 1
       \<and> (length (accepted buy_symbols) = 1 \<longrightarrow>
             map snd (snd (get_trading_list buy_symbols)) = [1])"
proof -
  let ?A = "accepted buy_symbols"
  let ?T = "sum_list (map fst ?A)"
  let ?n = "of_nat (length ?A) :: rat"
  let ?p = "\<lambda>b::rat \<times> string. 3 / 4 / ?n + 1 / 4 * fst b / ?T"
  have res: "snd (get_trading_list buy_symbols) = map (\<lambda>b. (snd b, ?p b)) ?A"
    by (rule get_trading_list_accepted)
  have floor: "\<forall>b \<in> set ?A. 1 / 100 \<le> fst b"
    using accepted_floor by blast
  have T: "0 < ?T"
    using sum_list_pos_floor[of "map fst ?A"] assms floor by simp
  have n: "1 \<le> ?n"
    using assms by (cases ?A) simp_all
  have bounds: "0 < ?p b \<and> ?p b \<le> 1" if b: "b \<in> set ?A" for b
  proof -
    have pos: "0 < fst b" using floor b by force
    have "fst b \<le> ?T"
      using member_le_sum_list_nonneg[of "map fst ?A" "fst b"] floor b by force
    then have r: "fst b / ?T \<le> 1" using T by simp
    have q: "0 < fst b / ?T" using pos T by simp
    have i: "3 / 4 / ?n \<le> 3 / 4" and j: "0 < 3 / 4 / ?n"
      using even_share[OF n] by simp_all
    have "?p b = 3 / 4 / ?n + 1 / 4 * (fst b / ?T)" by simp
    with r q i j show ?thesis by linarith
  qed
  have sum: "sum_list (map snd (snd (get_trading_list buy_symbols))) = 1"
    using sum_list_proportions[OF assms] T by (simp add: res comp_def)
  have single: "map snd (snd (get_trading_list buy_symbols)) = [1]" if "length ?A = 1"
  proof -
    from that obtain b where A: "?A = [b]" by (cases ?A) auto
    have "fst b \<noteq> 0" using T A by simp
    then show ?thesis by (simp add: res A)
  qed
  show ?thesis
    using res floor T bounds sum single by (auto simp del: One_nat_def)
qed

theorem get_trading_list_proportions_witness:
  "accepted ex_symbols \<noteq> []
   \<and> snd (get_trading_list ex_symbols) = [(''CD'', 21 / 40), (''AB'', 19 / 40)]
   \<and> sum_list (map snd (snd (get_trading_list ex_symbols))) = 1
   \<and> accepted [(1 / 50, ''AB'')] \<noteq> []
   \<and> map snd (snd (get_trading_list [(1 / 50, ''AB'')])) = [1]"
proof -
  have a: "accepted ex_symbols \<noteq> []"
    by (simp add: accepted_ex_symbols)
  have b: "accepted [(1 / 50, ''AB'')] = [(1 / 50, ''AB'')]"
    by (simp add: accepted_takeWhile MAX_STOCK_PICK_def)
  from get_trading_list_proportions[OF a] have
    "snd (get_trading_list ex_symbols) = [(''CD'', 21 / 40), (''AB'', 19 / 40)]"
    "sum_list (map snd (snd (get_trading_list ex_symbols))) = 1"
    by (simp_all add: accepted_ex_symbols)
  moreover from get_trading_list_proportions[of "[(1 / 50, ''AB'')]"] b
  have "map snd (snd (get_trading_list [(1 / 50, ''AB'')])) = [1]"
    by simp
  ultimately show ?thesis using a b by simp
qed

lemma prefix_takeWhile:
  "prefix ps xs \<Longrightarrow> \<forall>x \<in> set ps. P x \<Longrightarrow> prefix ps (takeWhile P xs)"
proof (induction xs arbitrary: ps)
  case Nil
  then show ?case by simp
next
  case (Cons x xs)
  then show ?case by (cases ps) auto
qed

lemma prefix_take_bound: "prefix ps xs \<Longrightarrow> length ps \<le> n \<Longrightarrow> prefix ps (take n xs)"
  by (auto simp: prefix_def)

text \<open>
  C6. The accepted symbols are a prefix of the list sorted in descending order, at most
  MAX_STOCK_PICK long, all with expectedReturn at least 0.01, and every prefix of the sorted
  list with these two properties is a prefix of the accepted one (it is the longest). The
  tickers of the trading list are those of the accepted symbols, in order, and with no
  accepted symbol the trading list is empty.
\<close>

theorem get_trading_list_prefix_stop:
  "prefix (accepted buy_symbols) (rev (sort buy_symbols))
   \<and> length (accepted buy_symbols) \<le> MAX_STOCK_PICK
   \<and> (\<forall>b \<in> set (accepted buy_symbols). 1 / 100 \<le> fst b)
   \<and> (\<forall>ps. prefix ps (rev (sort buy_symbols)) \<and> length ps \<le> MAX_STOCK_PICK
             \<and> (\<forall>b \<in> set ps. 1 / 100 \<le> fst b)
          \<longrightarrow> prefix ps (accepted buy_symbols))
   \<and> map fst (snd (get_trading_list buy_symbols)) = map snd (accepted buy_symbols)
   \<and> (accepted buy_symbols = [] \<longrightarrow> snd (get_trading_list buy_symbols) = [])"
proof -
  let ?s = "rev (sort buy_symbols)"
  let ?A = "accepted buy_symbols"
  have p: "prefix ?A ?s"
    by (simp add: accepted_def Let_def take_is_prefix)
  have l: "length ?A \<le> MAX_STOCK_PICK"
    unfolding accepted_takeWhile
    by (metis length_takeWhile_le length_take min.cobounded2 order_trans)
  have f: "\<forall>b \<in> set ?A. 1 / 100 \<le> fst b"
    using accepted_floor by blast
  have m: "prefix ps ?A"
    if "prefix ps ?s" "length ps \<le> MAX_STOCK_PICK" "\<forall>b \<in> set ps. 1 / 100 \<le> fst b" for ps
    unfolding accepted_takeWhile
    using that by (intro prefix_takeWhile prefix_take_bound)
  have t: "map fst (snd (get_trading_list buy_symbols)) = map snd ?A"
    by (simp add: get_trading_list_accepted comp_def)
  have e: "snd (get_trading_list buy_symbols) = []" if "?A = []"
    using that by (simp add: get_trading_list_accepted)
  show ?thesis
    using p l f m t e by blast
qed

theorem get_trading_list_prefix_stop_witness:
  "prefix [(3 / 100, ''CD'')] (rev (sort ex_symbols))
   \<and> prefix [(3 / 100, ''CD'')] (accepted ex_symbols)
   \<and> accepted ex_symbols = [(3 / 100, ''CD''), (1 / 50, ''AB'')]
   \<and> map fst (snd (get_trading_list ex_symbols)) = [''CD'', ''AB'']
   \<and> accepted [(1 / 200, ''EF'')] = []
   \<and> snd (get_trading_list [(1 / 200, ''EF'')]) = []"
proof -
  have p: "prefix [(3 / 100, ''CD'')] (rev (sort ex_symbols))"
    by (simp add: sorted_ex_symbols)
  have l: "length [(3 / 100 :: rat, ''CD'')] \<le> MAX_STOCK_PICK"
    by (simp add: MAX_STOCK_PICK_def)
  have f: "\<forall>b \<in> set [(3 / 100 :: rat, ''CD'')]. 1 / 100 \<le> fst b"
    by simp
  have e: "accepted [(1 / 200, ''EF'')] = []"
    by (simp add: accepted_takeWhile MAX_STOCK_PICK_def)
  from get_trading_list_prefix_stop[of ex_symbols] p l f
  have "prefix [(3 / 100, ''CD'')] (accepted ex_symbols)"
    by blast
  moreover from get_trading_list_prefix_stop[of ex_symbols]
  have "map fst (snd (get_trading_list ex_symbols)) = [''CD'', ''AB'']"
    by (simp add: accepted_ex_symbols)
  moreover from get_trading_list_prefix_stop[of "[(1 / 200, ''EF'')]"] e
  have "snd (get_trading_list [(1 / 200, ''EF'')]) = []"
    by blast
  ultimately show ?thesis using p e accepted_ex_symbols by simp
qed

text \<open>
  C10. After the call the caller's list is the input sorted in descending order of
  (expectedReturn, ticker): it holds the same entries as before (as a multiset), and it is
  the list that was passed exactly when that was in descending order already.
\<close>

theorem get_trading_list_sorts_in_place:
  "fst (get_trading_list buy_symbols) = rev (sort buy_symbols)
   \<and> sorted_wrt (\<lambda>a b. b \<le> a) (fst (get_trading_list buy_symbols))
   \<and> mset (fst (get_trading_list buy_symbols)) = mset buy_symbols
   \<and> (fst (get_trading_list buy_symbols) = buy_symbols
        \<longleftrightarrow> sorted_wrt (\<lambda>a b. b \<le> a) buy_symbols)"
proof -
  let ?r = "fst (get_trading_list buy_symbols)"
  have r: "?r = rev (sort buy_symbols)"
    by (simp add: get_trading_list_def Let_def)
  have s: "sorted_wrt (\<lambda>a b. b \<le> a) (rev (sort buy_symbols))"
    using sorted_sort[of buy_symbols] by (simp add: sorted_wrt_rev)
  have m: "mset (rev (sort buy_symbols)) = mset buy_symbols"
    by simp
  have i: "rev (sort buy_symbols) = buy_symbols" if d: "sorted_wrt (\<lambda>a b. b \<le> a) buy_symbols"
  proof -
    have "sorted (rev buy_symbols)" using d by (simp add: sorted_wrt_rev)
    then have "sort buy_symbols = rev buy_symbols"
      by (intro properties_for_sort) simp_all
    then show ?thesis by simp
  qed
  show ?thesis
    unfolding r using s m i by metis
qed

theorem get_trading_list_sorts_in_place_witness:
  "fst (get_trading_list ex_symbols) = [(3 / 100, ''CD''), (1 / 50, ''AB''), (1 / 200, ''EF'')]
   \<and> fst (get_trading_list ex_symbols) \<noteq> ex_symbols"
  using get_trading_list_sorts_in_place[of ex_symbols]
  by (simp add: sorted_ex_symbols) (simp add: ex_symbols_def)

section \<open>DipThresholdEstimator: the depth of a DipEvent\<close>

lemma collect_map_Inr:
  "\<forall>x \<in> set xs. f x = Inr (g x) \<Longrightarrow> collect (map f xs) = Inr (map g xs)"
  by (induction xs) auto

lemma collect_Inr_length: "collect rs = Inr vs \<Longrightarrow> length vs = length rs"
  by (induction rs arbitrary: vs) (auto split: sum.splits)

lemma collect_Inr_nth: "collect rs = Inr vs \<Longrightarrow> i < length rs \<Longrightarrow> rs ! i = Inr (vs ! i)"
proof (induction rs arbitrary: vs i)
  case Nil
  then show ?case by simp
next
  case (Cons r rs)
  then show ?case by (cases i) (auto split: sum.splits)
qed

lemma down_t_member:
  "i \<in> set (down_t series) \<longleftrightarrow>
     DATE_RANGE \<le> i \<and> i < length series \<and> series ! i \<le> series ! (i - 1)"
proof
  assume "i \<in> set (down_t series)"
  then obtain j where "i = j + 1" "DATE_RANGE - 1 \<le> j" "j < length series - 1"
    "series ! (j + 1) \<le> series ! j"
    by (auto simp: down_t_def)
  then show "DATE_RANGE \<le> i \<and> i < length series \<and> series ! i \<le> series ! (i - 1)"
    by (auto simp: DATE_RANGE_def)
next
  assume a: "DATE_RANGE \<le> i \<and> i < length series \<and> series ! i \<le> series ! (i - 1)"
  then have "i - 1 \<in> set (filter (\<lambda>i. series ! (i + 1) \<le> series ! i) [DATE_RANGE - 1 ..< length series - 1])"
    by (auto simp: DATE_RANGE_def)
  then have "(i - 1) + 1 \<in> set (down_t series)"
    unfolding down_t_def by (metis (no_types, lifting) image_eqI list.set_map)
  with a show "i \<in> set (down_t series)" by (simp add: DATE_RANGE_def)
qed

lemma window_slice:
  assumes "DATE_RANGE \<le> i" "i < length series"
  shows "py_slice series (int i - int DATE_RANGE) (int i) = take DATE_RANGE (drop (i - DATE_RANGE) series)"
proof -
  have lo: "slice_bound (length series) (int i - int DATE_RANGE) = i - DATE_RANGE"
    using assms by (simp add: slice_bound_def nat_diff_distrib')
  have hi: "slice_bound (length series) (int i) = i"
    using assms by (simp add: slice_bound_def)
  show ?thesis using assms by (simp add: py_slice_def lo hi)
qed

lemma window_has_previous:
  assumes "DATE_RANGE \<le> i" "i < length series"
  shows "series ! (i - 1) \<in> set (take DATE_RANGE (drop (i - DATE_RANGE) series))"
proof -
  let ?w = "take DATE_RANGE (drop (i - DATE_RANGE) series)"
  have len: "length ?w = DATE_RANGE" using assms by simp
  have "?w ! (DATE_RANGE - 1) = series ! (i - 1)"
    using assms by (simp add: DATE_RANGE_def)
  moreover have "DATE_RANGE - 1 < length ?w" using len by (simp add: DATE_RANGE_def)
  ultimately show ?thesis by (metis nth_mem)
qed

lemma window_subset: "set (take DATE_RANGE (drop k series)) \<subseteq> set series"
  by (meson set_drop_subset set_take_subset subset_trans)

text \<open>The depth of a DipEvent of a series of positive prices.\<close>

lemma depth_of_dip:
  assumes pos: "\<forall>p \<in> set series. 0 < p" and i: "i \<in> set (down_t series)"
  shows "\<exists>d. depth series i = Inr d \<and> 0 \<le> d \<and> d < 1"
proof -
  from i have r: "DATE_RANGE \<le> i" "i < length series" and dip: "series ! i \<le> series ! (i - 1)"
    by (simp_all add: down_t_member)
  let ?w = "take DATE_RANGE (drop (i - DATE_RANGE) series)"
  let ?m = "Max (set ?w)"
  have prev: "series ! (i - 1) \<in> set ?w" by (rule window_has_previous[OF r])
  have ne: "?w \<noteq> []" by (metis prev empty_iff empty_set)
  have "series ! (i - 1) \<le> ?m" using prev by simp
  with dip have le: "series ! i \<le> ?m" by simp
  have si: "0 < series ! i" using pos r by simp
  with le have m: "0 < ?m" by simp
  have "depth series i = Inr ((?m - series ! i) / ?m)"
    using m ne by (simp add: depth_def window_slice[OF r] np_max_def fdiv_def)
  moreover have "0 \<le> (?m - series ! i) / ?m" using le m by simp
  moreover have "(?m - series ! i) / ?m < 1" using si m by simp
  ultimately show ?thesis by blast
qed

lemma collect_all_Inr:
  "\<forall>r \<in> set rs. \<exists>v. r = Inr v \<and> P v \<Longrightarrow> \<exists>vs. collect rs = Inr vs \<and> (\<forall>v \<in> set vs. P v)"
proof (induction rs)
  case Nil
  then show ?case by simp
next
  case (Cons r rs)
  then obtain v vs where "r = Inr v" "P v" "collect rs = Inr vs" "\<forall>v \<in> set vs. P v"
    by auto
  then show ?case by simp
qed

lemma down_percent_defined:
  assumes "\<forall>p \<in> set series. 0 < p"
  shows "\<exists>dp. down_percent series (down_t series) = Inr dp \<and> length dp = length (down_t series)"
proof -
  have "\<forall>r \<in> set (map (depth series) (down_t series)). \<exists>d. r = Inr d \<and> True"
    using depth_of_dip[OF assms] by auto
  from collect_all_Inr[OF this] obtain dp where
    dp: "collect (map (depth series) (down_t series)) = Inr dp"
    by blast
  then have "length dp = length (down_t series)"
    by (auto dest: collect_Inr_length)
  with dp show ?thesis
    by (simp add: down_percent_def)
qed


lemmas eval_defs = get_picked_points_def down_t_def down_percent_def depth_def py_slice_def
  slice_bound_def np_max_def fdiv_def pick_ti_def scan_body_def gains_def gain_def
  np_average_def scan_init_def py_index_def DATE_RANGE_def Let_def

lemma down_t_ex_three_dips: "down_t ex_three_dips = [5, 7, 8]"
  by (simp add: down_t_def ex_three_dips_def DATE_RANGE_def)

lemma depths_ex_three_dips: "depths ex_three_dips = [1 / 10, 1 / 3, 1 / 3]"
  by (simp add: depths_def eval_defs ex_three_dips_def)


section \<open>DipThresholdEstimator: the scan over the ranked events\<close>

lemma scan_body_cases:
  assumes "scan_body series dt pti k st = Inr (brk, st')"
  shows "(avg_at series dt pti k = None \<and> st' = st \<and> \<not> brk)
       \<or> (\<exists>a. avg_at series dt pti k = Some a \<and> max_avg_gain st < a
              \<and> st' = st\<lparr>n_pick := k, max_avg_gain := a\<rparr> \<and> brk = (tol st = 0))
       \<or> (\<exists>a. avg_at series dt pti k = Some a \<and> a \<le> max_avg_gain st
              \<and> st' = st\<lparr>tol := tol st - 1\<rparr> \<and> brk = (tol st - 1 = 0))"
  using assms
  by (auto simp: scan_body_def avg_at_def Let_def split: sum.splits if_splits)

text \<open>What one iteration does to the best average and to the pick count.\<close>

lemma scan_body_step:
  assumes "scan_body series dt pti k st = Inr (brk, st')"
  shows "max_avg_gain st \<le> max_avg_gain st'"
    and "\<forall>a. avg_at series dt pti k = Some a \<longrightarrow> a \<le> max_avg_gain st'"
    and "(n_pick st' = n_pick st \<and> max_avg_gain st' = max_avg_gain st)
         \<or> (n_pick st' = k \<and> avg_at series dt pti k = Some (max_avg_gain st')
             \<and> max_avg_gain st < max_avg_gain st')"
  using scan_body_cases[OF assms] by auto

lemma scan_invariant:
  assumes "scan (scan_body series dt pti) ks st = Inr st'"
    and "sorted_wrt (<) ks" and "\<forall>k \<in> set ks. n_pick st < k"
  shows "max_avg_gain st \<le> max_avg_gain st'
       \<and> (\<forall>k \<in> set (considered (scan_body series dt pti) ks st).
             \<forall>a. avg_at series dt pti k = Some a \<longrightarrow>
                 a \<le> max_avg_gain st' \<and> (k < n_pick st' \<longrightarrow> a < max_avg_gain st'))
       \<and> ((n_pick st' = n_pick st \<and> max_avg_gain st' = max_avg_gain st)
          \<or> (n_pick st' \<in> set (considered (scan_body series dt pti) ks st)
              \<and> avg_at series dt pti (n_pick st') = Some (max_avg_gain st')
              \<and> max_avg_gain st < max_avg_gain st'))"
  using assms
proof (induction ks arbitrary: st)
  case Nil
  then show ?case by simp
next
  case (Cons k rest)
  let ?B = "scan_body series dt pti"
  from Cons.prems(1) obtain brk st1 where b: "?B k st = Inr (brk, st1)"
    by (auto split: sum.splits)
  note s = scan_body_step[OF b]
  have np1: "n_pick st1 = n_pick st \<or> n_pick st1 = k" using s(3) by auto
  have klt: "n_pick st < k" using Cons.prems(3) by simp
  show ?case
  proof (cases brk)
    case True
    with Cons.prems(1) b have st': "st' = st1" by simp
    have c: "considered ?B (k # rest) st = [k]" using b True by simp
    show ?thesis
      unfolding c st' using s np1 klt by auto
  next
    case False
    with Cons.prems(1) b have r: "scan ?B rest st1 = Inr st'" by simp
    have c: "considered ?B (k # rest) st = k # considered ?B rest st1" using b False by simp
    have so: "sorted_wrt (<) rest" and kr: "\<forall>k' \<in> set rest. k < k'"
      using Cons.prems(2) by auto
    have pre: "\<forall>k' \<in> set rest. n_pick st1 < k'"
      using np1 kr klt by force
    note ih = Cons.IH[OF r so pre]
    from ih have m: "max_avg_gain st1 \<le> max_avg_gain st'" by blast
    from ih have u: "\<forall>k' \<in> set (considered ?B rest st1).
             \<forall>a. avg_at series dt pti k' = Some a \<longrightarrow>
                 a \<le> max_avg_gain st' \<and> (k' < n_pick st' \<longrightarrow> a < max_avg_gain st')" by blast
    from ih have d: "(n_pick st' = n_pick st1 \<and> max_avg_gain st' = max_avg_gain st1)
          \<or> (n_pick st' \<in> set (considered ?B rest st1)
              \<and> avg_at series dt pti (n_pick st') = Some (max_avg_gain st')
              \<and> max_avg_gain st1 < max_avg_gain st')" by blast
    have g1: "max_avg_gain st \<le> max_avg_gain st'" using s(1) m by simp
    have g2k: "a \<le> max_avg_gain st' \<and> (k < n_pick st' \<longrightarrow> a < max_avg_gain st')"
      if a: "avg_at series dt pti k = Some a" for a
    proof -
      have le1: "a \<le> max_avg_gain st1" using s(2) a by simp
      have "a < max_avg_gain st'" if "k < n_pick st'"
      proof -
        from that np1 klt have "n_pick st' \<noteq> n_pick st1" by auto
        with d have "max_avg_gain st1 < max_avg_gain st'" by blast
        with le1 show ?thesis by simp
      qed
      with le1 m show ?thesis by auto
    qed
    have g3: "(n_pick st' = n_pick st \<and> max_avg_gain st' = max_avg_gain st)
          \<or> (n_pick st' \<in> set (k # considered ?B rest st1)
              \<and> avg_at series dt pti (n_pick st') = Some (max_avg_gain st')
              \<and> max_avg_gain st < max_avg_gain st')"
      using d s(1) s(3) by auto
    show ?thesis
      unfolding c using g1 g2k u g3 by auto
  qed
qed

lemma considered_subset: "set (considered body ks st) \<subseteq> set ks"
proof (induction ks arbitrary: st)
  case Nil
  then show ?case by simp
next
  case (Cons k ks)
  then show ?case by (auto split: sum.splits if_splits)
qed

lemma down_percent_length: "down_percent series dt = Inr dp \<Longrightarrow> length dp = length dt"
  unfolding down_percent_def by (auto dest: collect_Inr_length)

lemma depths_eq: "down_percent series (down_t series) = Inr dp \<Longrightarrow> depths series = dp"
  by (simp add: depths_def)

lemma length_pick_ti: "length (pick_ti dp) = length dp"
  by (simp add: pick_ti_def)

lemma set_pick_ti: "set (pick_ti dp) = {0..<length dp}"
  by (simp add: pick_ti_def)

lemma pick_ti_descending:
  assumes "i \<le> j" "j < length dp"
  shows "dp ! (pick_ti dp ! j) \<le> dp ! (pick_ti dp ! i)"
proof -
  have "sorted (map (\<lambda>i. - (dp ! i)) (pick_ti dp))"
    unfolding pick_ti_def by (rule sorted_sort_key)
  then have "map (\<lambda>i. - (dp ! i)) (pick_ti dp) ! i \<le> map (\<lambda>i. - (dp ! i)) (pick_ti dp) ! j"
    using assms by (intro sorted_nth_mono) (simp_all add: length_pick_ti)
  then show ?thesis using assms by (simp add: length_pick_ti)
qed

lemma insort_key_ranked:
  fixes f :: "nat \<Rightarrow> rat"
  assumes "sorted_wrt (\<lambda>a b. f a < f b \<or> f a = f b \<and> a < b) ys" and "\<forall>y \<in> set ys. x < y"
  shows "sorted_wrt (\<lambda>a b. f a < f b \<or> f a = f b \<and> a < b) (insort_key f x ys)"
  using assms
proof (induction ys)
  case Nil
  then show ?case by simp
next
  case (Cons y ys)
  show ?case
  proof (cases "f x \<le> f y")
    case True
    have "f x < f z \<or> f x = f z \<and> x < z" if "z \<in> set (y # ys)" for z
      using that True Cons.prems by force
    with True Cons.prems(1) show ?thesis by simp
  next
    case False
    have "sorted_wrt (\<lambda>a b. f a < f b \<or> f a = f b \<and> a < b) (insort_key f x ys)"
      using Cons by simp
    with False Cons.prems(1) show ?thesis by (auto simp: set_insort_key)
  qed
qed

lemma sort_key_ranked:
  fixes f :: "nat \<Rightarrow> rat"
  shows "sorted_wrt (<) xs \<Longrightarrow>
         sorted_wrt (\<lambda>a b. f a < f b \<or> f a = f b \<and> a < b) (sort_key f xs)"
proof (induction xs)
  case Nil
  then show ?case by simp
next
  case (Cons x xs)
  then show ?case by (simp add: insort_key_ranked)
qed

lemma pick_ti_ranked:
  "sorted_wrt (\<lambda>a b. dp ! b < dp ! a \<or> dp ! a = dp ! b \<and> a < b) (pick_ti dp)"
proof -
  have "sorted_wrt (<) [0..<length dp]"
    by (simp add: sorted_wrt_iff_nth_less)
  from sort_key_ranked[OF this, of "\<lambda>i. - (dp ! i)"] show ?thesis
    by (simp add: pick_ti_def)
qed

lemma down_t_increasing: "sorted_wrt (<) (down_t series)"
proof -
  have "sorted_wrt (<) (filter (\<lambda>i. series ! (i + 1) \<le> series ! i) [DATE_RANGE - 1 ..< length series - 1])"
    by (intro sorted_wrt_filter) (simp add: sorted_wrt_iff_nth_less)
  then show ?thesis
    unfolding down_t_def by (simp add: sorted_wrt_map)
qed

text \<open>
  The ranking: the DipEvents, each once, by decreasing depth; events of equal depth in scan
  order.
\<close>

lemma ranked_events_order:
  assumes "down_percent series (down_t series) = Inr dp"
  shows "mset (ranked_events series) = mset (zip (down_t series) dp)"
    and "sorted_wrt (\<lambda>a b. snd b < snd a \<or> snd a = snd b \<and> fst a < fst b) (ranked_events series)"
proof -
  let ?dt = "down_t series"
  let ?g = "\<lambda>j. (?dt ! j, dp ! j)"
  have d: "depths series = dp" by (rule depths_eq[OF assms])
  have l: "length dp = length ?dt" by (rule down_percent_length[OF assms])
  have "mset (map ?g (pick_ti dp)) = mset (map ?g [0..<length dp])"
    by (simp add: pick_ti_def)
  also have "map ?g [0..<length dp] = zip ?dt dp"
    using l by (intro nth_equalityI) simp_all
  finally show "mset (ranked_events series) = mset (zip ?dt dp)"
    by (simp add: ranked_events_def d)
  have inc: "?dt ! a < ?dt ! b" if "a < b" "b < length ?dt" for a b
    using down_t_increasing[of series] that by (simp add: sorted_wrt_iff_nth_less)
  have "sorted_wrt (\<lambda>a b. snd (?g b) < snd (?g a) \<or> snd (?g a) = snd (?g b) \<and> fst (?g a) < fst (?g b))
          (pick_ti dp)"
  proof (rule sorted_wrt_mono_rel[OF _ pick_ti_ranked])
    fix a b assume "a \<in> set (pick_ti dp)" "b \<in> set (pick_ti dp)"
      and "dp ! b < dp ! a \<or> dp ! a = dp ! b \<and> a < b"
    then show "snd (?g b) < snd (?g a) \<or> snd (?g a) = snd (?g b) \<and> fst (?g a) < fst (?g b)"
      using inc l by (auto simp: set_pick_ti)
  qed
  then show "sorted_wrt (\<lambda>a b. snd b < snd a \<or> snd a = snd b \<and> fst a < fst b) (ranked_events series)"
    by (simp add: ranked_events_def d sorted_wrt_map)
qed

lemma avg_rebound_avg_at:
  "avg_rebound series k = avg_at series (down_t series) (pick_ti (depths series)) k"
  by (simp add: avg_rebound_def avg_at_def ranked_events_def take_map comp_def)

text \<open>
  What a call returns whenever it picks at least one event: the picked events are the top
  \<open>k\<close> of the ranking, the threshold is the depth at rank \<open>k\<close>, the smallest among the
  picked; \<open>k\<close> was considered, its average is the returned one, no considered \<open>k\<close> has a
  larger average and no smaller considered \<open>k\<close> has the same.
\<close>

lemma get_picked_points_best:
  assumes "get_picked_points series = Inr (pick_t, average_rebound, depth_threshold)"
    and "pick_t \<noteq> []"
  shows "1 \<le> length pick_t \<and> length pick_t < length (down_t series)
       \<and> pick_t = map fst (take (length pick_t) (ranked_events series))
       \<and> depth_threshold = snd (ranked_events series ! (length pick_t - 1))
       \<and> (\<forall>e \<in> set (take (length pick_t) (ranked_events series)). depth_threshold \<le> snd e)
       \<and> length pick_t \<in> set (considered_k series)
       \<and> avg_rebound series (length pick_t) = Some average_rebound
       \<and> (\<forall>k \<in> set (considered_k series). \<forall>a. avg_rebound series k = Some a \<longrightarrow>
             a \<le> average_rebound \<and> (k < length pick_t \<longrightarrow> a < average_rebound))"
proof -
  let ?dt = "down_t series"
  from assms(1) obtain dp where dp: "down_percent series ?dt = Inr dp"
    by (auto simp: get_picked_points_def Let_def split: sum.splits)
  let ?pti = "pick_ti dp"
  let ?B = "scan_body series ?dt ?pti"
  let ?N = "length ?pti"
  from assms(1) dp obtain st where st: "scan ?B [1..<?N] scan_init = Inr st"
    by (auto simp: get_picked_points_def Let_def split: sum.splits)
  from assms(1) dp st obtain threshold_i where
    ti: "py_index ?pti (int (n_pick st) - 1) = Inr threshold_i"
    and pt: "pick_t = map (\<lambda>j. ?dt ! j) (take (n_pick st) ?pti)"
    and ar: "average_rebound = max_avg_gain st"
    and th: "depth_threshold = dp ! threshold_i"
    by (auto simp: get_picked_points_def Let_def split: sum.splits)
  have d: "depths series = dp" by (rule depths_eq[OF dp])
  have N: "?N = length ?dt" by (simp add: length_pick_ti down_percent_length[OF dp])
  have ck: "considered_k series = considered ?B [1..<?N] scan_init"
    by (simp add: considered_k_def d Let_def)
  have k0: "n_pick st \<noteq> 0" using assms(2) pt by auto
  have "sorted_wrt (<) [1..<?N]" by (simp add: sorted_wrt_iff_nth_less)
  moreover have "\<forall>k \<in> set [1..<?N]. n_pick scan_init < k" by (simp add: scan_init_def)
  ultimately have inv:
     "max_avg_gain scan_init \<le> max_avg_gain st
       \<and> (\<forall>k \<in> set (considered ?B [1..<?N] scan_init).
             \<forall>a. avg_at series ?dt ?pti k = Some a \<longrightarrow>
                 a \<le> max_avg_gain st \<and> (k < n_pick st \<longrightarrow> a < max_avg_gain st))
       \<and> ((n_pick st = n_pick scan_init \<and> max_avg_gain st = max_avg_gain scan_init)
          \<or> (n_pick st \<in> set (considered ?B [1..<?N] scan_init)
              \<and> avg_at series ?dt ?pti (n_pick st) = Some (max_avg_gain st)
              \<and> max_avg_gain scan_init < max_avg_gain st))"
    by (rule scan_invariant[OF st])
  from inv k0 have kc: "n_pick st \<in> set (considered_k series)"
    and best: "avg_at series ?dt ?pti (n_pick st) = Some (max_avg_gain st)"
    by (auto simp: ck scan_init_def)
  from kc have kr: "1 \<le> n_pick st" "n_pick st < ?N"
    using considered_subset[of ?B "[1..<?N]" scan_init] by (auto simp: ck)
  have len: "length pick_t = n_pick st" using kr by (simp add: pt)
  have idx: "threshold_i = ?pti ! (n_pick st - 1)"
  proof -
    have "nat (int (n_pick st) - 1) = n_pick st - 1" by simp
    with ti kr show ?thesis by (simp add: py_index_def)
  qed
  have a1: "pick_t = map fst (take (length pick_t) (ranked_events series))"
    unfolding len by (simp add: pt ranked_events_def d take_map comp_def)
  have a2: "depth_threshold = snd (ranked_events series ! (length pick_t - 1))"
    using kr by (simp add: len th idx ranked_events_def d)
  have a3: "depth_threshold \<le> snd e" if "e \<in> set (take (length pick_t) (ranked_events series))" for e
  proof -
    from that obtain i where i: "i < n_pick st" "e = ranked_events series ! i"
      using kr by (auto simp: in_set_conv_nth len ranked_events_def d)
    have "dp ! (?pti ! (n_pick st - 1)) \<le> dp ! (?pti ! i)"
      using i kr by (intro pick_ti_descending) (simp_all add: length_pick_ti[symmetric])
    then show ?thesis using i kr by (simp add: th idx ranked_events_def d)
  qed
  have a5: "avg_rebound series (length pick_t) = Some average_rebound"
    by (simp add: avg_rebound_avg_at d len best ar)
  have a6: "a \<le> average_rebound \<and> (k < length pick_t \<longrightarrow> a < average_rebound)"
    if "k \<in> set (considered_k series)" "avg_rebound series k = Some a" for k a
    using that inv by (simp add: avg_rebound_avg_at d len ar ck)
  show ?thesis
    using kr N a1 a2 a3 kc a5 a6 unfolding len by (auto simp del: One_nat_def)
qed

section \<open>DipThresholdEstimator: series of positive prices\<close>

text \<open>Unless the counter has reached zero, the loop has run for every value it was given.\<close>

lemma considered_without_break:
  "scan (scan_body series dt pti) ks st = Inr st' \<Longrightarrow> tol st' \<noteq> 0 \<Longrightarrow>
   considered (scan_body series dt pti) ks st = ks"
proof (induction ks arbitrary: st)
  case Nil
  then show ?case by simp
next
  case (Cons k ks)
  let ?B = "scan_body series dt pti"
  from Cons.prems(1) obtain brk st1 where b: "?B k st = Inr (brk, st1)"
    by (auto split: sum.splits)
  have nb: "\<not> brk"
  proof
    assume brk
    with Cons.prems(1) b have "st' = st1" by simp
    moreover from scan_body_cases[OF b] \<open>brk\<close> have "tol st1 = 0" by auto
    ultimately show False using Cons.prems(2) by simp
  qed
  with Cons.prems(1) b have "scan ?B ks st1 = Inr st'" by simp
  from Cons.IH[OF this Cons.prems(2)] b nb show ?case by simp
qed

text \<open>With positive prices every rebound is defined and above -1.\<close>

lemma gains_positive_prices:
  assumes pos: "\<forall>p \<in> set series. 0 < p" and ts: "\<forall>t \<in> set ts. t < length series"
  shows "\<exists>gs. gains series ts = Inr gs
            \<and> length gs = length (filter (\<lambda>t. t + 1 < length series) ts)
            \<and> (\<forall>g \<in> set gs. - 1 < g)"
proof -
  let ?f = "filter (\<lambda>t. t + 1 < length series) ts"
  have "\<exists>g. gain series t = Inr g \<and> - 1 < g" if "t \<in> set ?f" for t
  proof -
    from that ts have t: "t < length series" "t + 1 < length series" by auto
    with pos have p: "0 < series ! t" "0 < series ! (t + 1)" by simp_all
    then have "- 1 < (series ! (t + 1) - series ! t) / series ! t"
      by (simp add: field_simps)
    with p show ?thesis by (simp add: gain_def fdiv_def)
  qed
  then have "\<forall>r \<in> set (map (gain series) ?f). \<exists>g. r = Inr g \<and> - 1 < g" by auto
  from collect_all_Inr[OF this] obtain gs where
    gs: "gains series ts = Inr gs" "\<forall>g \<in> set gs. - 1 < g"
    unfolding gains_def by blast
  from gs(1) have "length gs = length ?f"
    unfolding gains_def by (auto dest: collect_Inr_length)
  with gs show ?thesis by blast
qed

lemma np_average_above:
  fixes gs :: "rat list"
  assumes "gs \<noteq> []" and "\<forall>g \<in> set gs. c < g"
  shows "c < np_average gs"
proof -
  have "of_nat (length gs) * c < sum_list gs" using assms
  proof (induction gs)
    case Nil
    then show ?case by simp
  next
    case (Cons g gs)
    show ?case
    proof (cases "gs = []")
      case True
      with Cons.prems show ?thesis by simp
    next
      case False
      with Cons have "of_nat (length gs) * c < sum_list gs" by simp
      moreover have "c < g" using Cons.prems by simp
      ultimately show ?thesis by (simp add: algebra_simps)
    qed
  qed
  moreover have "0 < (of_nat (length gs) :: rat)" using assms(1) by simp
  ultimately show ?thesis
    by (simp add: np_average_def pos_less_divide_eq mult.commute)
qed

lemma float_min_below: "float_min < - 1"
  by (simp add: float_min_def)

lemma scan_body_positive_prices:
  assumes pos: "\<forall>p \<in> set series. 0 < p" and ev: "\<forall>j \<in> set pti. dt ! j < length series"
  shows "\<exists>brk st'. scan_body series dt pti k st = Inr (brk, st')
           \<and> (n_pick st' = n_pick st \<or> n_pick st' = k)
           \<and> ((\<exists>j \<in> set (take k pti). dt ! j + 1 < length series) \<longrightarrow>
                max_avg_gain st = float_min \<longrightarrow> n_pick st' = k \<and> brk = (tol st = 0))
           \<and> (\<not> (\<exists>j \<in> set (take k pti). dt ! j + 1 < length series) \<longrightarrow> st' = st \<and> \<not> brk)"
proof -
  let ?ts = "map (\<lambda>j. dt ! j) (take k pti)"
  have "\<forall>t \<in> set ?ts. t < length series"
    using ev by (auto dest: in_set_takeD)
  from gains_positive_prices[OF pos this] obtain gs where
    gs: "gains series ?ts = Inr gs"
    and len: "length gs = length (filter (\<lambda>t. t + 1 < length series) ?ts)"
    and above: "\<forall>g \<in> set gs. - 1 < g"
    by blast
  have ne: "gs \<noteq> [] \<longleftrightarrow> (\<exists>j \<in> set (take k pti). dt ! j + 1 < length series)"
  proof -
    have "gs \<noteq> [] \<longleftrightarrow> filter (\<lambda>t. t + 1 < length series) ?ts \<noteq> []"
      using len by (metis length_0_conv)
    also have "\<dots> \<longleftrightarrow> (\<exists>t \<in> set ?ts. t + 1 < length series)"
      by (simp add: filter_empty_conv)
    also have "\<dots> \<longleftrightarrow> (\<exists>j \<in> set (take k pti). dt ! j + 1 < length series)"
      by auto
    finally show ?thesis .
  qed
  show ?thesis
  proof (cases "gs = []")
    case True
    with gs ne show ?thesis by (auto simp: scan_body_def)
  next
    case False
    then have "- 1 < np_average gs" using above by (rule np_average_above)
    then have "float_min < np_average gs" using float_min_below by simp
    with gs ne False show ?thesis by (auto simp: scan_body_def Let_def)
  qed
qed

lemma scan_positive_prices:
  assumes pos: "\<forall>p \<in> set series. 0 < p" and ev: "\<forall>j \<in> set pti. dt ! j < length series"
  shows "\<forall>k \<in> set ks. 1 \<le> k \<Longrightarrow>
         \<exists>st'. scan (scan_body series dt pti) ks st = Inr st'
              \<and> (1 \<le> n_pick st \<longrightarrow> 1 \<le> n_pick st')"
proof (induction ks arbitrary: st)
  case Nil
  then show ?case by simp
next
  case (Cons k ks)
  from scan_body_positive_prices[OF pos ev, of k st] obtain brk st1 where
    b: "scan_body series dt pti k st = Inr (brk, st1)"
    and n: "n_pick st1 = n_pick st \<or> n_pick st1 = k"
    by blast
  have k: "1 \<le> k" using Cons.prems by simp
  have keep: "1 \<le> n_pick st \<longrightarrow> 1 \<le> n_pick st1" using n k by auto
  show ?case
  proof (cases brk)
    case True
    with b keep show ?thesis by simp
  next
    case False
    from Cons.IH[of st1] Cons.prems obtain st' where
      "scan (scan_body series dt pti) ks st1 = Inr st'" "1 \<le> n_pick st1 \<longrightarrow> 1 \<le> n_pick st'"
      by auto
    with b False keep show ?thesis by simp
  qed
qed

lemma distinct_pick_ti: "distinct (pick_ti dp)"
  by (simp add: pick_ti_def)

text \<open>
  With positive prices and at least two DipEvents the call returns and picks an event, unless
  there are exactly two events and the one of rank 1 is the last day of the series.
\<close>

lemma get_picked_points_picks:
  assumes pos: "\<forall>p \<in> set series. 0 < p"
    and two: "2 \<le> length (down_t series)"
    and reach: "3 \<le> length (down_t series) \<or> fst (ranked_events series ! 0) + 1 < length series"
  shows "\<exists>pick_t average_rebound depth_threshold.
           get_picked_points series = Inr (pick_t, average_rebound, depth_threshold)
           \<and> pick_t \<noteq> []"
proof -
  let ?dt = "down_t series"
  from down_percent_defined[OF pos] obtain dp where
    dp: "down_percent series ?dt = Inr dp" and ldp: "length dp = length ?dt"
    by blast
  let ?pti = "pick_ti dp"
  let ?B = "scan_body series ?dt ?pti"
  let ?N = "length ?pti"
  have N: "?N = length ?dt" by (simp add: length_pick_ti ldp)
  have d: "depths series = dp" by (rule depths_eq[OF dp])
  have idx: "?pti ! i < length ?dt" if "i < ?N" for i
    using that nth_mem[of i ?pti] by (simp add: set_pick_ti ldp)
  have ev: "\<forall>j \<in> set ?pti. ?dt ! j < length series"
  proof
    fix j assume "j \<in> set ?pti"
    then have "j < length ?dt" by (simp add: set_pick_ti ldp)
    then have "?dt ! j \<in> set ?dt" by simp
    then show "?dt ! j < length series" by (simp add: down_t_member)
  qed
  have N0: "0 < ?N" using two N by linarith
  have r0: "fst (ranked_events series ! 0) = ?dt ! (?pti ! 0)"
    using N0 by (simp add: ranked_events_def d)
  have t1: "take 1 ?pti = [?pti ! 0]"
    using N0 by (cases ?pti) simp_all
  have ks: "[1..<?N] = 1 # [2..<?N]"
  proof -
    have "1 < ?N" using two N by linarith
    then have "[1..<?N] = 1 # [Suc 1..<?N]" by (rule upt_conv_Cons)
    moreover have "Suc 1 = 2" by simp
    ultimately show ?thesis by (simp only:)
  qed
  have init: "max_avg_gain scan_init = float_min" "tol scan_init \<noteq> 0" "n_pick scan_init = 0"
    by (simp_all add: scan_init_def)
  have "\<exists>st. scan ?B [1..<?N] scan_init = Inr st \<and> 1 \<le> n_pick st"
  proof (cases "?dt ! (?pti ! 0) + 1 < length series")
    case True
    then have h: "\<exists>j \<in> set (take 1 ?pti). ?dt ! j + 1 < length series"
      unfolding t1 by simp
    from scan_body_positive_prices[OF pos ev, of 1 scan_init] h init obtain brk st1 where
      b: "?B 1 scan_init = Inr (brk, st1)" and n: "n_pick st1 = 1" and nb: "\<not> brk"
      by auto
    from scan_positive_prices[OF pos ev, of "[2..<?N]" st1] n obtain st where
      s: "scan ?B [2..<?N] st1 = Inr st" "1 \<le> n_pick st"
      by auto
    with b nb have "scan ?B (1 # [2..<?N]) scan_init = Inr st" by simp
    with s(2) show ?thesis unfolding ks by blast
  next
    case False
    then have h: "\<not> (\<exists>j \<in> set (take 1 ?pti). ?dt ! j + 1 < length series)"
      unfolding t1 by simp
    from scan_body_positive_prices[OF pos ev, of 1 scan_init] h obtain brk where
      b: "?B 1 scan_init = Inr (brk, scan_init)" and nb: "\<not> brk"
      by auto
    from False reach r0 have three: "3 \<le> ?N" by (simp add: N)
    have ks2: "[2..<?N] = 2 # [3..<?N]"
    proof -
      have "2 < ?N" using three by linarith
      then have "[2..<?N] = 2 # [Suc 2..<?N]" by (rule upt_conv_Cons)
      moreover have "Suc 2 = 3" by simp
      ultimately show ?thesis by (simp only:)
    qed
    have i01: "0 < ?N" "1 < ?N" using three by linarith+
    have ne: "?pti ! 0 \<noteq> ?pti ! 1"
      using nth_eq_iff_index_eq[where xs = ?pti and i = 0 and j = 1, OF distinct_pick_ti i01]
      by simp
    have "distinct ?dt"
      using down_t_increasing[of series] by (simp add: strict_sorted_iff)
    then have "?dt ! (?pti ! 0) \<noteq> ?dt ! (?pti ! 1)"
      using ne nth_eq_iff_index_eq[where xs = ?dt and i = "?pti ! 0" and j = "?pti ! 1"]
        idx[OF i01(1)] idx[OF i01(2)] by blast
    moreover have "?dt ! (?pti ! 0) < length series" "?dt ! (?pti ! 1) < length series"
      using ev nth_mem[OF i01(1)] nth_mem[OF i01(2)] by blast+
    ultimately have "?dt ! (?pti ! 1) + 1 < length series" using False by linarith
    moreover have "?pti ! 1 \<in> set (take 2 ?pti)"
    proof -
      have "take 2 ?pti ! 1 = ?pti ! 1" by simp
      moreover have "1 < length (take 2 ?pti)" using three by simp
      ultimately show ?thesis by (metis nth_mem)
    qed
    ultimately have h2: "\<exists>j \<in> set (take 2 ?pti). ?dt ! j + 1 < length series" by blast
    from scan_body_positive_prices[OF pos ev, of 2 scan_init] h2 init obtain brk2 st2 where
      b2: "?B 2 scan_init = Inr (brk2, st2)" and n2: "n_pick st2 = 2" and nb2: "\<not> brk2"
      by auto
    from scan_positive_prices[OF pos ev, of "[3..<?N]" st2] n2 obtain st where
      s: "scan ?B [3..<?N] st2 = Inr st" "1 \<le> n_pick st"
      by auto
    with b nb b2 nb2 have "scan ?B (1 # 2 # [3..<?N]) scan_init = Inr st" by simp
    with s(2) show ?thesis unfolding ks ks2 by blast
  qed
  then obtain st where st: "scan ?B [1..<?N] scan_init = Inr st" and k1: "1 \<le> n_pick st"
    by blast
  have "sorted_wrt (<) [1..<?N]" by (simp add: sorted_wrt_iff_nth_less)
  moreover have "\<forall>k \<in> set [1..<?N]. n_pick scan_init < k" by (simp add: scan_init_def)
  ultimately have "n_pick st = n_pick scan_init \<or> n_pick st \<in> set (considered ?B [1..<?N] scan_init)"
    using scan_invariant[OF st] by blast
  with k1 init have "n_pick st \<in> set [1..<?N]"
    using considered_subset[of ?B "[1..<?N]" scan_init] by auto
  then have kN: "n_pick st < ?N" by simp
  have "py_index ?pti (int (n_pick st) - 1) = Inr (?pti ! (n_pick st - 1))"
  proof -
    have "nat (int (n_pick st) - 1) = n_pick st - 1" by simp
    with k1 kN show ?thesis by (simp add: py_index_def)
  qed
  with dp st have "get_picked_points series =
      Inr (map (\<lambda>j. ?dt ! j) (take (n_pick st) ?pti), max_avg_gain st, dp ! (?pti ! (n_pick st - 1)))"
    by (simp add: get_picked_points_def Let_def)
  moreover have "map (\<lambda>j. ?dt ! j) (take (n_pick st) ?pti) \<noteq> []"
    using k1 kN by auto
  ultimately show ?thesis by blast
qed

text \<open>
  Together: for positive prices and at least three DipEvents, or two of which the one of rank 1
  is not the last day, the call returns the best average over the considered candidates and
  the depth at the rank of the smallest candidate that reaches it.
\<close>

lemma get_picked_points_calibrated:
  assumes "\<forall>p \<in> set series. 0 < p"
    and "2 \<le> length (down_t series)"
    and "3 \<le> length (down_t series) \<or> fst (ranked_events series ! 0) + 1 < length series"
  shows "\<exists>pick_t average_rebound depth_threshold.
           get_picked_points series = Inr (pick_t, average_rebound, depth_threshold)
           \<and> 1 \<le> length pick_t \<and> length pick_t < length (down_t series)
           \<and> pick_t = map fst (take (length pick_t) (ranked_events series))
           \<and> depth_threshold = snd (ranked_events series ! (length pick_t - 1))
           \<and> (\<forall>e \<in> set (take (length pick_t) (ranked_events series)). depth_threshold \<le> snd e)
           \<and> length pick_t \<in> set (considered_k series)
           \<and> avg_rebound series (length pick_t) = Some average_rebound
           \<and> (\<forall>k \<in> set (considered_k series). \<forall>a. avg_rebound series k = Some a \<longrightarrow>
                 a \<le> average_rebound \<and> (k < length pick_t \<longrightarrow> a < average_rebound))"
proof -
  from get_picked_points_picks[OF assms] obtain pick_t average_rebound depth_threshold where
    r: "get_picked_points series = Inr (pick_t, average_rebound, depth_threshold)"
    and ne: "pick_t \<noteq> []"
    by blast
  from get_picked_points_best[OF r ne] r show ?thesis
    by blast
qed

section \<open>DipThresholdEstimator: degenerate series\<close>

lemma down_t_rising: "sorted_wrt (<) series \<Longrightarrow> down_t series = []"
proof -
  assume s: "sorted_wrt (<) series"
  have "\<not> series ! (i + 1) \<le> series ! i" if "i < length series - 1" for i
    using s that by (simp add: sorted_wrt_iff_nth_less not_le)
  then show ?thesis by (simp add: down_t_def)
qed

lemma get_picked_points_no_dip: "down_t series = [] \<Longrightarrow> get_picked_points series = Inl IndexError"
  by (simp add: get_picked_points_def down_percent_def pick_ti_def py_index_def scan_init_def)


lemma ex_rising_sorted: "sorted_wrt (<) ex_rising"
  by (simp add: ex_rising_def)






lemma get_picked_points_ex_rising: "get_picked_points ex_rising = Inl IndexError"
  by (simp add: get_picked_points_no_dip down_t_rising ex_rising_sorted)


section \<open>BuySignalEvaluator\<close>

lemma trailing_window: "py_slice_from series (- int DATE_RANGE) = drop (length series - DATE_RANGE) series"
proof -
  have "nat (max 0 (int (length series) + - int DATE_RANGE)) = length series - DATE_RANGE"
    by linarith
  then show ?thesis
    by (simp add: py_slice_from_def slice_bound_def DATE_RANGE_def)
qed

text \<open>
  C2. On a nonempty series: a price not below the last point of the series gives exactly
  \<open>(0, False)\<close>, whatever get_picked_points would do on the series. Otherwise the outcome is
  that of get_picked_points when it fails; when it returns \<open>(_, averageRebound,
  depthThreshold)\<close>, the result is \<open>(averageRebound, currentDepth > depthThreshold)\<close> with
  \<open>currentDepth = (m - price) / m\<close> for the maximum \<open>m\<close> of the last DATE_RANGE points
  (\<open>m = 0\<close> leaves the rationals).
\<close>

theorem get_buy_signal_rule:
  assumes "series \<noteq> []"
  shows "(last series \<le> price \<longrightarrow> get_buy_signal series price = Inr (0, False))
       \<and> (price < last series \<longrightarrow>
            get_buy_signal series price =
              (case get_picked_points series of
                 Inl e \<Rightarrow> Inl e
               | Inr (pick_t, average_rebound, depth_threshold) \<Rightarrow>
                   (let m = Max (set (drop (length series - DATE_RANGE) series))
                    in if m = 0 then Inl NonFinite
                       else Inr (average_rebound, depth_threshold < (m - price) / m))))"
proof -
  from assms have "0 < length series" by simp
  then have "length series - DATE_RANGE < length series" by (simp add: DATE_RANGE_def)
  then have ne: "drop (length series - DATE_RANGE) series \<noteq> []" by simp
  show ?thesis
    using ne by (auto simp: get_buy_signal_def py_index_last[OF assms] trailing_window np_max_def fdiv_def Let_def
        split: sum.splits prod.splits)
qed

lemma get_picked_points_ex_three_dips: "get_picked_points ex_three_dips = Inr ([7], 0, 1 / 3)"
  by (simp add: eval_defs ex_three_dips_def float_min_def)

theorem get_buy_signal_rule_witness:
  "[100, 102, 101, 105, 103] \<noteq> ([] :: rat list)
   \<and> get_buy_signal [100, 102, 101, 105, 103] 105 = Inr (0, False)
   \<and> get_buy_signal ex_three_dips 7 = Inr (0, True)
   \<and> get_buy_signal ex_three_dips 8 = Inr (0, False)
   \<and> get_buy_signal ex_rising 6 = Inl IndexError"
proof -
  have a: "[100, 102, 101, 105, 103] \<noteq> ([] :: rat list)" by simp
  have b: "ex_three_dips \<noteq> []" by (simp add: ex_three_dips_def)
  have c: "ex_rising \<noteq> []" by (simp add: ex_rising_def)
  have l: "last ex_three_dips = 8" "drop (length ex_three_dips - DATE_RANGE) ex_three_dips = [10, 9, 12, 8, 8]"
    by (simp_all add: ex_three_dips_def DATE_RANGE_def)
  have r: "last ex_rising = 7"
    by (simp add: ex_rising_def)
  from get_buy_signal_rule[OF a, of 105]
  have "get_buy_signal [100, 102, 101, 105, 103] 105 = Inr (0, False)"
    by simp
  moreover from get_buy_signal_rule[OF b, of 7]
  have "get_buy_signal ex_three_dips 7 = Inr (0, True)"
    by (simp add: l get_picked_points_ex_three_dips)
  moreover from get_buy_signal_rule[OF b, of 8]
  have "get_buy_signal ex_three_dips 8 = Inr (0, False)"
    by (simp add: l)
  moreover from get_buy_signal_rule[OF c, of 6]
  have "get_buy_signal ex_rising 6 = Inl IndexError"
    by (simp add: r get_picked_points_ex_rising)
  ultimately show ?thesis by simp
qed

section \<open>DipThresholdEstimator: the candidates the scan reaches\<close>

lemma considered_k_below:
  "k \<in> set (considered_k series) \<Longrightarrow> 1 \<le> k \<and> k < length (down_t series)"
proof -
  assume k: "k \<in> set (considered_k series)"
  let ?pti = "pick_ti (depths series)"
  from k have "k \<in> set [1..<length ?pti]"
    using considered_subset[of "scan_body series (down_t series) ?pti" "[1..<length ?pti]" scan_init]
    by (auto simp: considered_k_def Let_def)
  then have r: "1 \<le> k" "k < length (depths series)"
    by (simp_all add: length_pick_ti)
  then have "length (depths series) = length (down_t series)"
    by (auto simp: depths_def split: sum.splits dest: down_percent_length)
  with r show ?thesis by simp
qed

lemma ranked_events_ex_three_dips:
  "ranked_events ex_three_dips = [(7, 1 / 3), (8, 1 / 3), (5, 1 / 10)]"
  by (simp add: ranked_events_def depths_ex_three_dips down_t_ex_three_dips pick_ti_def)

lemma considered_k_ex_three_dips: "considered_k ex_three_dips = [1, 2]"
  by (simp add: considered_k_def depths_ex_three_dips down_t_ex_three_dips pick_ti_def Let_def)
    (simp add: scan_body_def gains_def gain_def fdiv_def np_average_def scan_init_def Let_def
      ex_three_dips_def float_min_def)

text \<open>
  C1. The loop runs over \<^verbatim>\<open>range(1, len(pick_ti))\<close>: on a series with three DipEvents it
  considers \<open>k = 1\<close> and \<open>k = 2\<close> only (the counter stays at 49), although the top three
  events have the larger average rebound 1/6; it returns the average 0 of \<open>k = 1\<close>.
\<close>

theorem scan_stops_short_of_all_events:
  "length (down_t ex_three_dips) = 3
   \<and> considered_k ex_three_dips = [1, 2]
   \<and> avg_rebound ex_three_dips 1 = Some 0
   \<and> avg_rebound ex_three_dips 2 = Some 0
   \<and> avg_rebound ex_three_dips 3 = Some (1 / 6)
   \<and> get_picked_points ex_three_dips = Inr ([7], 0, 1 / 3)"
  by (simp add: down_t_ex_three_dips considered_k_ex_three_dips get_picked_points_ex_three_dips
      avg_rebound_def ranked_events_ex_three_dips)
    (simp add: gains_def gain_def fdiv_def np_average_def ex_three_dips_def)

lemma down_t_ex_last_day_deepest: "down_t ex_last_day_deepest = [5, 7]"
  by (simp add: down_t_def ex_last_day_deepest_def DATE_RANGE_def)

lemma depths_ex_last_day_deepest: "depths ex_last_day_deepest = [1 / 10, 1 / 5]"
  by (simp add: depths_def eval_defs ex_last_day_deepest_def)

lemma ranked_events_ex_last_day_deepest:
  "ranked_events ex_last_day_deepest = [(7, 1 / 5), (5, 1 / 10)]"
  by (simp add: ranked_events_def depths_ex_last_day_deepest down_t_ex_last_day_deepest pick_ti_def)

lemma considered_k_ex_last_day_deepest: "considered_k ex_last_day_deepest = [1]"
  by (simp add: considered_k_def depths_ex_last_day_deepest down_t_ex_last_day_deepest
      pick_ti_def Let_def)
    (simp add: scan_body_def gains_def ex_last_day_deepest_def)

text \<open>
  C3. On a series with two DipEvents of which the deeper is the last day, the only candidate
  considered is \<open>k = 1\<close>, which has no rebound to average. The call returns no picked event,
  the initial value \<open>float_min\<close> as average and the depth of the event of rank 2 as
  threshold; the top two events, which the loop does not reach, have the average 1/18.
\<close>

theorem calibration_without_scored_candidate:
  "length (down_t ex_last_day_deepest) = 2
   \<and> ranked_events ex_last_day_deepest = [(7, 1 / 5), (5, 1 / 10)]
   \<and> considered_k ex_last_day_deepest = [1]
   \<and> avg_rebound ex_last_day_deepest 1 = None
   \<and> avg_rebound ex_last_day_deepest 2 = Some (1 / 18)
   \<and> get_picked_points ex_last_day_deepest = Inr ([], float_min, 1 / 10)"
  by (simp add: down_t_ex_last_day_deepest considered_k_ex_last_day_deepest
      avg_rebound_def ranked_events_ex_last_day_deepest)
    (simp add: eval_defs ex_last_day_deepest_def)

section \<open>UniverseFilter: a failed volume lookup ends the whole call\<close>

lemma volume_loop_step:
  "volume_loop net volumes ((ticker, series) # rest) res overwrite =
     (case volume_of net volumes ticker of
        Inl e \<Rightarrow> Inl e
      | Inr volume \<Rightarrow>
          volume_loop net volumes rest
            (if VOLUME_FILTER_THRESHOLD \<le> volume then dict_set res ticker series else res)
            (overwrite \<or> volumes ticker = None))"
  by (auto simp: volume_of_def split: option.splits sum.splits)

declare volume_loop.simps(2) [simp del]

lemma volume_loop_aborts:
  "(t, s) \<in> set items \<Longrightarrow> volume_of net volumes t = Inl e \<Longrightarrow>
   \<exists>e'. volume_loop net volumes items res overwrite = Inl e'"
proof (induction items arbitrary: res overwrite)
  case Nil
  then show ?case by simp
next
  case (Cons p items)
  obtain t' s' where p: "p = (t', s')" by (cases p)
  show ?case
  proof (cases "volume_of net volumes t'")
    case (Inl e0)
    then show ?thesis by (simp add: p volume_loop_step)
  next
    case (Inr v)
    with Cons.prems p have "(t, s) \<in> set items" by auto
    from Cons.IH[OF this Cons.prems(2)] Inr show ?thesis
      by (simp add: p volume_loop_step)
  qed
qed

lemma volume_loop_filter:
  "distinct (map fst items) \<Longrightarrow> fst ` set items \<inter> fst ` set res = {} \<Longrightarrow>
   \<forall>(t, s) \<in> set items. \<exists>v. volume_of net volumes t = Inr v \<Longrightarrow>
   \<exists>ow. volume_loop net volumes items res overwrite =
     Inr (res @ filter (\<lambda>(t, s). enough_volume net volumes t) items, ow)"
proof (induction items arbitrary: res overwrite)
  case Nil
  then show ?case by simp
next
  case (Cons p items)
  obtain t s where p: "p = (t, s)" by (cases p)
  from Cons.prems p obtain v where v: "volume_of net volumes t = Inr v" by auto
  from Cons.prems p have fresh: "t \<notin> fst ` set res"
    and d: "distinct (map fst items)" and tn: "t \<notin> fst ` set items"
    and rest: "\<forall>(t, s) \<in> set items. \<exists>v. volume_of net volumes t = Inr v"
    and disj: "fst ` set items \<inter> fst ` set res = {}"
    by auto
  show ?case
  proof (cases "VOLUME_FILTER_THRESHOLD \<le> v")
    case True
    have "fst ` set items \<inter> fst ` set (res @ [(t, s)]) = {}" using disj tn by auto
    from Cons.IH[OF d this rest, of "overwrite \<or> volumes t = None"] True v fresh show ?thesis
      by (simp add: p volume_loop_step dict_set_fresh enough_volume_def)
  next
    case False
    from Cons.IH[OF d disj rest, of "overwrite \<or> volumes t = None"] False v show ?thesis
      by (simp add: p volume_loop_step enough_volume_def)
  qed
qed

text \<open>
  C9 (amended). When the volume lookup fails for a ticker of the input, the failure leaves
  filter_low_volume_series as an exception: the call returns nothing, for no ticker. When no
  lookup fails, the result holds exactly the tickers whose volume is at least
  VOLUME_FILTER_THRESHOLD, with their series.
\<close>

theorem filter_low_volume_series_aborts:
  "((\<exists>(t, s) \<in> set all_series. \<exists>e. volume_of net volumes t = Inl e) \<longrightarrow>
      (\<exists>e. filter_low_volume_series net volumes all_series = Inl e))
   \<and> (distinct (map fst all_series)
        \<and> (\<forall>(t, s) \<in> set all_series. \<exists>v. volume_of net volumes t = Inr v) \<longrightarrow>
      filter_low_volume_series net volumes all_series =
        Inr (filter (\<lambda>(t, s). enough_volume net volumes t) all_series))"
proof -
  have a: "\<exists>e. filter_low_volume_series net volumes all_series = Inl e"
    if "(t, s) \<in> set all_series" "volume_of net volumes t = Inl e" for t s e
    using volume_loop_aborts[OF that, of "[]" False]
    by (auto simp: filter_low_volume_series_def)
  have b: "filter_low_volume_series net volumes all_series =
        Inr (filter (\<lambda>(t, s). enough_volume net volumes t) all_series)"
    if "distinct (map fst all_series)"
      "\<forall>(t, s) \<in> set all_series. \<exists>v. volume_of net volumes t = Inr v"
    using volume_loop_filter[OF that(1) _ that(2), of "[]" False]
    by (auto simp: filter_low_volume_series_def)
  show ?thesis using a b by blast
qed

lemma volume_A: "volume_of ex_net_down ex_cache ''A'' = Inr 20000"
  by (simp add: volume_of_def ex_cache_def)

lemma volume_B_down: "volume_of ex_net_down ex_cache ''B'' = Inl SymbolNotFound"
  by (simp add: volume_of_def ex_cache_def fetch_volume_def web_scraping_def ex_net_down_def)

lemma volume_B_up: "volume_of ex_net_up ex_cache ''B'' = Inr 12345"
  by (simp add: volume_of_def ex_cache_def fetch_volume_def web_scraping_def ex_net_up_def
      is_digit_def py_int_def digit_value_def)

text \<open>
  Against C9 as stated: ticker A is in the cache with enough volume, the lookup for ticker B
  fails (after the retry); the call for both fails as a whole, while the call for A alone
  returns A.
\<close>

theorem volume_lookup_failure_counterexample:
  "volume_of ex_net_down ex_cache ''A'' = Inr 20000
   \<and> enough_volume ex_net_down ex_cache ''A''
   \<and> volume_of ex_net_down ex_cache ''B'' = Inl SymbolNotFound
   \<and> filter_low_volume_series ex_net_down ex_cache [(''A'', [1]), (''B'', [2])] = Inl SymbolNotFound
   \<and> filter_low_volume_series ex_net_down ex_cache [(''A'', [1])] = Inr [(''A'', [1])]"
  by (simp add: volume_A volume_B_down enough_volume_def filter_low_volume_series_def
      volume_loop_step VOLUME_FILTER_THRESHOLD_def)

theorem filter_low_volume_series_aborts_witness:
  "filter_low_volume_series ex_net_down ex_cache [(''A'', [1]), (''B'', [2])] = Inl SymbolNotFound
   \<and> filter_low_volume_series ex_net_up ex_cache [(''A'', [1]), (''B'', [2])]
       = Inr [(''A'', [1]), (''B'', [2])]"
proof -
  have "\<exists>(t, s) \<in> set [(''A'', [1::rat]), (''B'', [2])]. \<exists>e. volume_of ex_net_down ex_cache t = Inl e"
    by (simp add: volume_B_down)
  with filter_low_volume_series_aborts[of "[(''A'', [1]), (''B'', [2])]" ex_net_down ex_cache]
  obtain e where e: "filter_low_volume_series ex_net_down ex_cache [(''A'', [1]), (''B'', [2])] = Inl e"
    by blast
  have e': "e = SymbolNotFound"
    using e by (simp add: filter_low_volume_series_def volume_loop_step volume_A volume_B_down
      VOLUME_FILTER_THRESHOLD_def)
  have va: "volume_of ex_net_up ex_cache ''A'' = Inr 20000"
    by (simp add: volume_of_def ex_cache_def)
  have "distinct (map fst [(''A'', [1::rat]), (''B'', [2])])
        \<and> (\<forall>(t, s) \<in> set [(''A'', [1::rat]), (''B'', [2])]. \<exists>v. volume_of ex_net_up ex_cache t = Inr v)"
    by (simp add: va volume_B_up)
  with filter_low_volume_series_aborts[of "[(''A'', [1]), (''B'', [2])]" ex_net_up ex_cache]
  have "filter_low_volume_series ex_net_up ex_cache [(''A'', [1]), (''B'', [2])]
       = Inr (filter (\<lambda>(t, s). enough_volume ex_net_up ex_cache t) [(''A'', [1]), (''B'', [2])])"
    by blast
  then have "filter_low_volume_series ex_net_up ex_cache [(''A'', [1]), (''B'', [2])]
       = Inr [(''A'', [1]), (''B'', [2])]"
    by (simp add: enough_volume_def va volume_B_up VOLUME_FILTER_THRESHOLD_def)
  with e e' show ?thesis by simp
qed

end
